theory Spec2Isabelle
  imports Main "HOL-Library.Signed_Division"
begin

section \<open>The data model of fastkst\_localtime.c\<close>

text \<open>
  The C source works on \<open>int64_t\<close> values (\<open>time_t\<close>, \<open>days\<close>, \<open>rem\<close>, \<open>y\<close>) and
  stores 32-bit \<open>int\<close> fields. Values are modelled as mathematical integers; C's \<open>/\<close> and
  \<open>%\<close> truncate towards zero and are \<open>sdiv\<close> and \<open>smod\<close>, and every \<open>(int)\<close> cast of the
  source is \<open>cast_int\<close>, the wrap to 32 bits. Section "No intermediate overflow" shows
  that for a 64-bit \<open>time_t\<close> and an offset of less than a day the values the splitter
  starts from and every value the year resolver computes stay in the 64-bit range, so that
  the mathematical integers compute what the machine computes; the two loops of the
  splitter run at most twice, and the rest of the function works on values the size of a
  day count or smaller.
\<close>

definition SECS_PER_HOUR :: int where
  "SECS_PER_HOUR = 60 * 60"

definition SECS_PER_DAY :: int where
  "SECS_PER_DAY = SECS_PER_HOUR * 24"

text \<open>The constants of \<open>limits.h\<close> and \<open>errno.h\<close> (Linux values, 32-bit \<open>int\<close>).\<close>

definition INT_MIN :: int where
  "INT_MIN = - 2147483648"

definition INT_MAX :: int where
  "INT_MAX = 2147483647"

definition EINVAL :: int where
  "EINVAL = 22"

definition EOVERFLOW :: int where
  "EOVERFLOW = 75"

text \<open>The range of a 64-bit \<open>time_t\<close> (and of \<open>int64_t\<close>).\<close>

definition in_int64 :: "int \<Rightarrow> bool" where
  "in_int64 x \<longleftrightarrow> - 9223372036854775808 \<le> x \<and> x \<le> 9223372036854775807"

text \<open>The cast \<open>(int) x\<close> of a 64-bit value: the low 32 bits, read as two's complement.\<close>

definition cast_int :: "int \<Rightarrow> int" where
  "cast_int x = (x + 2147483648) mod 4294967296 - 2147483648"

text \<open>\<open>struct tm\<close>, with the glibc extension fields \<open>tm_gmtoff\<close> and \<open>tm_zone\<close>; a
  \<open>NULL\<close> zone pointer is \<open>None\<close>.\<close>

record tm =
  tm_sec :: int
  tm_min :: int
  tm_hour :: int
  tm_mday :: int
  tm_mon :: int
  tm_year :: int
  tm_wday :: int
  tm_yday :: int
  tm_isdst :: int
  tm_gmtoff :: int
  tm_zone :: "string option"

text \<open>\<open>#define __isleap(year)\<close>, with C's remainder.\<close>

definition isleap :: "int \<Rightarrow> bool" where
  "isleap year \<longleftrightarrow> year smod 4 = 0 \<and> (year smod 100 \<noteq> 0 \<or> year smod 400 = 0)"

text \<open>\<open>__mon_yday[2][13]\<close>: row 0 for normal years, row 1 for leap years.\<close>

definition mon_yday :: "int list list" where
  "mon_yday =
    [[0, 31, 59, 90, 120, 151, 181, 212, 243, 273, 304, 334, 365],
     [0, 31, 60, 91, 121, 152, 182, 213, 244, 274, 305, 335, 366]]"

text \<open>The row \<open>__mon_yday[__isleap(y)]\<close>: the macro's value is 0 or 1.\<close>

definition mon_yday_row :: "int \<Rightarrow> int list" where
  "mon_yday_row y = mon_yday ! (if isleap y then 1 else 0)"

text \<open>\<open>#define DIV(a, b)\<close> and \<open>#define LEAPS_THRU_END_OF(y)\<close>.\<close>

definition DIV :: "int \<Rightarrow> int \<Rightarrow> int" where
  "DIV a b = a sdiv b - (if a smod b < 0 then 1 else 0)"

definition LEAPS_THRU_END_OF :: "int \<Rightarrow> int" where
  "LEAPS_THRU_END_OF y = DIV y 4 - DIV y 100 + DIV y 400"

section \<open>The loops of \_\_offtime64\<close>

text \<open>
  \<open>while (rem < 0) { rem += SECS_PER_DAY; --days; }\<close> on the pair \<open>(rem, days)\<close>, and the
  number of times its body runs.
\<close>

function loop_neg :: "int \<times> int \<Rightarrow> int \<times> int" where
  "loop_neg (rem, days) =
     (if rem < 0 then loop_neg (rem + SECS_PER_DAY, days - 1) else (rem, days))"
  by pat_completeness auto
termination
  by (relation "measure (\<lambda>(rem, days). nat (- rem))") (auto simp: SECS_PER_DAY_def SECS_PER_HOUR_def)

function loop_neg_iters :: "int \<times> int \<Rightarrow> nat" where
  "loop_neg_iters (rem, days) =
     (if rem < 0 then Suc (loop_neg_iters (rem + SECS_PER_DAY, days - 1)) else 0)"
  by pat_completeness auto
termination
  by (relation "measure (\<lambda>(rem, days). nat (- rem))") (auto simp: SECS_PER_DAY_def SECS_PER_HOUR_def)

text \<open>\<open>while (rem >= SECS_PER_DAY) { rem -= SECS_PER_DAY; ++days; }\<close>\<close>

function loop_pos :: "int \<times> int \<Rightarrow> int \<times> int" where
  "loop_pos (rem, days) =
     (if rem \<ge> SECS_PER_DAY then loop_pos (rem - SECS_PER_DAY, days + 1) else (rem, days))"
  by pat_completeness auto
termination
  by (relation "measure (\<lambda>(rem, days). nat rem)") (auto simp: SECS_PER_DAY_def SECS_PER_HOUR_def)

function loop_pos_iters :: "int \<times> int \<Rightarrow> nat" where
  "loop_pos_iters (rem, days) =
     (if rem \<ge> SECS_PER_DAY then Suc (loop_pos_iters (rem - SECS_PER_DAY, days + 1)) else 0)"
  by pat_completeness auto
termination
  by (relation "measure (\<lambda>(rem, days). nat rem)") (auto simp: SECS_PER_DAY_def SECS_PER_HOUR_def)

text \<open>
  The year resolver: the guard \<open>days < 0 || days >= (__isleap (y) ? 366 : 365)\<close> and one
  run of the body, on the pair \<open>(y, days)\<close>.
\<close>

definition year_guard :: "int \<times> int \<Rightarrow> bool" where
  "year_guard s = (case s of (y, days) \<Rightarrow> days < 0 \<or> days \<ge> (if isleap y then 366 else 365))"

definition year_body :: "int \<times> int \<Rightarrow> int \<times> int" where
  "year_body s =
     (case s of (y, days) \<Rightarrow>
        let yg = y + days sdiv 365 - (if days smod 365 < 0 then 1 else 0);
            days = days - ((yg - y) * 365
                           + LEAPS_THRU_END_OF (yg - 1)
                           - LEAPS_THRU_END_OF (y - 1))
        in (yg, days))"

subsection \<open>C's division and the floor division of the leap count\<close>

lemma sdiv_pos: "0 < b \<Longrightarrow> (a::int) sdiv b = (if a < 0 \<and> a mod b \<noteq> 0 then a div b + 1 else a div b)"
  by (auto simp: signed_divide_int_def sgn_if zdiv_zminus1_eq_if)

lemma smod_pos: "0 < b \<Longrightarrow> (a::int) smod b = (if a < 0 \<and> a mod b \<noteq> 0 then a mod b - b else a mod b)"
  by (auto simp: signed_modulo_int_def sgn_if zmod_zminus1_eq_if)

lemma smod_neg_iff: "0 < b \<Longrightarrow> (a::int) smod b < 0 \<longleftrightarrow> a < 0 \<and> a mod b \<noteq> 0"
  using pos_mod_sign[of b a] pos_mod_bound[of b a] by (auto simp: smod_pos simp del: pos_mod_sign pos_mod_bound)

lemma smod_zero_iff: "0 < b \<Longrightarrow> (a::int) smod b = 0 \<longleftrightarrow> a mod b = 0"
  using pos_mod_bound[of b a] by (auto simp: smod_pos simp del: pos_mod_bound)

lemma DIV_floor: "0 < b \<Longrightarrow> DIV a b = a div b"
  unfolding DIV_def by (simp add: smod_neg_iff sdiv_pos)

lemma LEAPS_floor: "LEAPS_THRU_END_OF y = y div 4 - y div 100 + y div 400"
  by (simp add: LEAPS_THRU_END_OF_def DIV_floor)

lemma isleap_dvd: "isleap y \<longleftrightarrow> 4 dvd y \<and> (\<not> 100 dvd y \<or> 400 dvd y)"
  unfolding isleap_def
  by (simp add: smod_zero_iff dvd_eq_mod_eq_0) 

lemma year_body_floor: "year_body (y, d) = (y + d div 365, d mod 365 - (LEAPS_THRU_END_OF (y + d div 365 - 1) - LEAPS_THRU_END_OF (y - 1)))"
proof -
  have "d sdiv 365 - (if d smod 365 < 0 then 1 else 0) = d div 365"
    by (simp add: smod_neg_iff sdiv_pos)
  then have yg: "y + d sdiv 365 - (if d smod 365 < 0 then 1 else 0) = y + d div 365"
    by linarith
  have "d - d div 365 * 365 = d mod 365"
    by (simp add: minus_div_mult_eq_mod)
  then show ?thesis
    unfolding year_body_def Let_def prod.case yg by (simp add: algebra_simps)
qed

lemma div_succ:
  fixes y k :: int
  assumes "0 < k"
  shows "(y + 1) div k = y div k + (if k dvd (y + 1) then 1 else 0)"
proof (cases "y mod k + 1 < k")
  case True
  have eq: "y + 1 = k * (y div k) + (y mod k + 1)" by simp
  have nn: "0 \<le> y mod k + 1" using assms pos_mod_sign[of k y] by linarith
  have d: "(y + 1) div k = y div k" by (rule int_div_pos_eq[OF eq nn True])
  have m: "(y + 1) mod k = y mod k + 1" by (rule int_mod_pos_eq[OF eq nn True])
  have "(y + 1) mod k \<noteq> 0" using m assms pos_mod_sign[of k y] by linarith
  then have "\<not> k dvd (y + 1)" by (simp add: dvd_eq_mod_eq_0)
  with d show ?thesis by simp
next
  case False
  then have k: "y mod k + 1 = k" using assms pos_mod_bound[of k y] by linarith
  have "y + 1 = k * (y div k) + (y mod k + 1)" by simp
  then have eq: "y + 1 = k * (y div k + 1) + 0" unfolding k by (simp add: algebra_simps)
  have d: "(y + 1) div k = y div k + 1" by (rule int_div_pos_eq[OF eq _ assms]) simp
  have "k dvd (y + 1)" using eq by (metis add.right_neutral dvd_triv_left)
  with d show ?thesis by simp
qed

lemma arith_aux: "(a + a') - (b + b') + (c + c') - (a - b + c) = a' - b' + (c'::int)"
  by simp

lemma leaps_step: "LEAPS_THRU_END_OF (y + 1) - LEAPS_THRU_END_OF y = (if isleap (y + 1) then 1 else 0)"
proof -
  have a: "(400::int) dvd y + 1 \<longrightarrow> 100 dvd y + 1"
    using dvd_trans[of 100 400 "y + 1"] by simp
  have b: "(100::int) dvd y + 1 \<longrightarrow> 4 dvd y + 1"
    using dvd_trans[of 4 100 "y + 1"] by simp
  have e4: "(y + 1) div 4 = y div 4 + (if 4 dvd y + 1 then 1 else 0)" by (rule div_succ) simp
  have e100: "(y + 1) div 100 = y div 100 + (if 100 dvd y + 1 then 1 else 0)" by (rule div_succ) simp
  have e400: "(y + 1) div 400 = y div 400 + (if 400 dvd y + 1 then 1 else 0)" by (rule div_succ) simp
  have key: "\<And>A B C. (C \<longrightarrow> B) \<Longrightarrow> (B \<longrightarrow> A) \<Longrightarrow>
      (if A then 1 else 0) - (if B then 1 else 0) + (if C then 1 else 0)
        = (if A \<and> (\<not> B \<or> C) then 1 else (0::int))"
    subgoal for A B C by (cases A; cases B; cases C; simp)
    done
  have "LEAPS_THRU_END_OF (y + 1) - LEAPS_THRU_END_OF y
      = (if 4 dvd y + 1 then 1 else 0) - (if 100 dvd y + 1 then 1 else 0) + (if 400 dvd y + 1 then 1 else 0)"
    unfolding LEAPS_floor e4 e100 e400 by (rule arith_aux)
  also have "\<dots> = (if 4 dvd y + 1 \<and> (\<not> 100 dvd y + 1 \<or> 400 dvd y + 1) then 1 else 0)"
    by (rule key[OF a b])
  finally show ?thesis unfolding isleap_dvd .
qed

lemma leaps_diff_nat: "0 \<le> LEAPS_THRU_END_OF (y + int n) - LEAPS_THRU_END_OF y \<and> LEAPS_THRU_END_OF (y + int n) - LEAPS_THRU_END_OF y \<le> int n"
proof (induction n)
  case 0
  then show ?case by simp
next
  case (Suc n)
  have e: "y + int (Suc n) = (y + int n) + 1" by simp
  have "LEAPS_THRU_END_OF (y + int n + 1) - LEAPS_THRU_END_OF (y + int n) = (if isleap (y + int n + 1) then 1 else 0)"
    by (rule leaps_step)
  then have "LEAPS_THRU_END_OF (y + int n + 1) - LEAPS_THRU_END_OF (y + int n) \<in> {0, 1}"
    by (simp split: if_splits)
  with Suc show ?case unfolding e by auto
qed

lemma leaps_diff: "0 \<le> n \<Longrightarrow> 0 \<le> LEAPS_THRU_END_OF (y + n) - LEAPS_THRU_END_OF y \<and> LEAPS_THRU_END_OF (y + n) - LEAPS_THRU_END_OF y \<le> n"
  using leaps_diff_nat[of y "nat n"] by simp

lemma year_body_cases:
  assumes "year_body (y, d) = (yg, d')"
  shows "\<exists>q r l. d = 365 * q + r \<and> 0 \<le> r \<and> r < 365 \<and> yg = y + q \<and> d' = r - l
           \<and> l = LEAPS_THRU_END_OF (y + q - 1) - LEAPS_THRU_END_OF (y - 1)
           \<and> (0 \<le> q \<longrightarrow> 0 \<le> l \<and> l \<le> q) \<and> (q < 0 \<longrightarrow> q \<le> l \<and> l \<le> 0)
           \<and> (q = - 1 \<longrightarrow> l = (if isleap (y + q) then - 1 else 0))"
proof -
  define q where "q = d div 365"
  define r where "r = d mod 365"
  define l where "l = LEAPS_THRU_END_OF (y + q - 1) - LEAPS_THRU_END_OF (y - 1)"
  have yg: "yg = y + q" and d': "d' = r - l"
    using assms unfolding year_body_floor q_def r_def l_def by auto
  have dq: "d = 365 * q + r" unfolding q_def r_def by simp
  have r: "0 \<le> r" "r < 365" unfolding r_def by simp_all
  have pos: "0 \<le> l \<and> l \<le> q" if "0 \<le> q"
    using leaps_diff[OF that, of "y - 1"] unfolding l_def by (simp add: algebra_simps)
  have neg: "q \<le> l \<and> l \<le> 0" if "q < 0"
  proof -
    have "0 \<le> - q" using that by simp
    from leaps_diff[OF this, of "y + q - 1"] show ?thesis
      unfolding l_def by (simp add: algebra_simps)
  qed
  have m1: "l = (if isleap (y + q) then - 1 else 0)" if "q = - 1"
    using leaps_step[of "y - 2"] unfolding l_def that by (simp add: algebra_simps)
  show ?thesis
    using dq r yg d' pos neg m1 l_def by blast
qed

function year_loop :: "int \<times> int \<Rightarrow> int \<times> int" where
  "year_loop s = (if year_guard s then year_loop (year_body s) else s)"
  by pat_completeness auto

definition year_measure :: "int \<times> int \<Rightarrow> nat" where
  "year_measure s = (if \<not> year_guard s then 0 else if snd s < 0 then 300 * nat (- snd s) else nat (snd s))"

lemma year_body_decreases:
  assumes "year_guard (y, d)"
  shows "year_measure (year_body (y, d)) < year_measure (y, d)"
proof -
  obtain yg d' where yb: "year_body (y, d) = (yg, d')" by (cases "year_body (y, d)")
  from year_body_cases[OF yb] obtain q r l where
    dq: "d = 365 * q + r" and r: "0 \<le> r" "r < 365" and yg: "yg = y + q" and d': "d' = r - l"
    and pos: "0 \<le> q \<longrightarrow> 0 \<le> l \<and> l \<le> q" and neg: "q < 0 \<longrightarrow> q \<le> l \<and> l \<le> 0"
    and m1: "q = - 1 \<longrightarrow> l = (if isleap (y + q) then - 1 else 0)"
    by blast
  have out: "d < 0 \<or> d \<ge> 365" using assms unfolding year_guard_def by (auto split: if_splits)
  show ?thesis
  proof (cases "d < 0")
    case True
    then have q: "q < 0" using dq r by linarith
    with neg have l: "q \<le> l" "l \<le> 0" by simp_all
    have d'nn: "0 \<le> d'" using d' r l by linarith
    show ?thesis
    proof (cases "q = - 1")
      case True
      with m1 have "l = (if isleap yg then - 1 else 0)" unfolding yg by simp
      then have "\<not> year_guard (yg, d')"
        unfolding year_guard_def using d' r by (simp split: if_splits)
      then show ?thesis unfolding yb year_measure_def using assms \<open>d < 0\<close> by simp
    next
      case False
      with q have "q \<le> - 2" by linarith
      then have "d' < 300 * (- d)" using d' l r dq by linarith
      then have "nat d' < 300 * nat (- d)" using d'nn \<open>d < 0\<close> by linarith
      then show ?thesis unfolding yb year_measure_def using assms \<open>d < 0\<close> d'nn by simp
    qed
  next
    case False
    with out have d365: "d \<ge> 365" by simp
    then have q: "1 \<le> q" using dq r by linarith
    with pos have l: "0 \<le> l" "l \<le> q" by simp_all
    show ?thesis
    proof (cases "d' < 0")
      case True
      have "300 * (- d') < d" using d' l r dq q by linarith
      then have "300 * nat (- d') < nat d" using True d365 by linarith
      then show ?thesis unfolding yb year_measure_def using assms d365 True by simp
    next
      case False
      then have "\<not> year_guard (yg, d')"
        unfolding year_guard_def using d' r l by (simp split: if_splits)
      then show ?thesis unfolding yb year_measure_def using assms d365 by simp
    qed
  qed
qed

termination year_loop
proof (relation "measure year_measure")
  show "wf (measure year_measure)" by simp
next
  fix s :: "int \<times> int"
  assume "year_guard s"
  then show "(year_body s, s) \<in> measure year_measure"
    using year_body_decreases[of "fst s" "snd s"] by simp
qed

text \<open>The number of times the body of the year resolver's loop runs.\<close>

function year_loop_iters :: "int \<times> int \<Rightarrow> nat" where
  "year_loop_iters s = (if year_guard s then Suc (year_loop_iters (year_body s)) else 0)"
  by pat_completeness auto
termination
proof (relation "measure year_measure")
  show "wf (measure year_measure)" by simp
next
  fix s :: "int \<times> int"
  assume "year_guard s"
  then show "(year_body s, s) \<in> measure year_measure"
    using year_body_decreases[of "fst s" "snd s"] by simp
qed

text \<open>
  \<open>for (y = 11; days < (long int) ip[y]; --y) continue;\<close> started at index \<open>y\<close>. The row
  \<open>ip\<close> has 13 entries; a read outside the row is undefined behaviour in C and \<open>None\<close>
  here.
\<close>

function mon_scan :: "int list \<Rightarrow> int \<Rightarrow> int \<Rightarrow> int option" where
  "mon_scan ip days y =
     (if y < 0 \<or> int (length ip) \<le> y then None
      else if days < ip ! nat y then mon_scan ip days (y - 1)
      else Some y)"
  by pat_completeness auto
termination
  by (relation "measure (\<lambda>(ip, days, y). nat (y + 1))") auto

text \<open>The loops are unfolded by hand, one run of the body at a time.\<close>

declare loop_neg.simps [simp del] loop_neg_iters.simps [simp del]
  loop_pos.simps [simp del] loop_pos_iters.simps [simp del]
  year_loop.simps [simp del] year_loop_iters.simps [simp del] mon_scan.simps [simp del]

section \<open>The three functions\<close>

text \<open>
  A pointer argument is an option: \<open>None\<close> is \<open>NULL\<close>, \<open>Some r\<close> a pointer to an object
  that holds \<open>r\<close>. A function takes the objects its pointers reach and the value of
  \<open>errno\<close>, and returns its return value with the objects and \<open>errno\<close> as it leaves
  them. The outer option is \<open>None\<close> when the run reads outside \<open>__mon_yday\<close>.
\<close>

definition offtime64 :: "int \<Rightarrow> int \<Rightarrow> tm option \<Rightarrow> int \<Rightarrow> (int \<times> tm option \<times> int) option" where
  "offtime64 t offset tp errno =
     (case tp of
        None \<Rightarrow> Some (0, None, EINVAL)
      | Some r \<Rightarrow>
          let days = t sdiv SECS_PER_DAY;
              rem = t smod SECS_PER_DAY;
              rem = rem + offset;
              (rem, days) = loop_neg (rem, days);
              (rem, days) = loop_pos (rem, days);
              r = r\<lparr>tm_hour := cast_int (rem sdiv SECS_PER_HOUR)\<rparr>;
              rem = rem smod SECS_PER_HOUR;
              r = r\<lparr>tm_min := cast_int (rem sdiv 60)\<rparr>;
              r = r\<lparr>tm_sec := cast_int (rem smod 60)\<rparr>;
              r = r\<lparr>tm_wday := cast_int ((4 + days) smod 7)\<rparr>;
              r = (if tm_wday r < 0 then r\<lparr>tm_wday := tm_wday r + 7\<rparr> else r);
              y = 1970;
              (y, days) = year_loop (y, days)
          in if y < INT_MIN + 1900 \<or> y > INT_MAX + 1900
             then Some (0, Some r, EOVERFLOW)
             else
               let r = r\<lparr>tm_year := cast_int (y - 1900)\<rparr>;
                   r = r\<lparr>tm_yday := cast_int days\<rparr>;
                   ip = mon_yday_row y
               in (case mon_scan ip days 11 of
                     None \<Rightarrow> None
                   | Some y \<Rightarrow>
                       let days = days - ip ! nat y;
                           r = r\<lparr>tm_mon := cast_int y\<rparr>;
                           r = r\<lparr>tm_mday := cast_int (days + 1)\<rparr>
                       in Some (1, Some r, errno)))"

definition kst_offset :: int where
  "kst_offset = 3600 * 9"

definition fastkst_localtime :: "int \<Rightarrow> tm option \<Rightarrow> int \<Rightarrow> (int \<times> tm option \<times> int) option" where
  "fastkst_localtime t tp errno =
     (case tp of
        None \<Rightarrow> Some (0, None, EINVAL)
      | Some _ \<Rightarrow>
          (case offtime64 t kst_offset tp errno of
             None \<Rightarrow> None
           | Some (ret, tp, errno) \<Rightarrow>
               if ret = 1
               then Some (ret,
                          map_option (\<lambda>r. r\<lparr>tm_gmtoff := kst_offset, tm_zone := Some ''KST'',
                                             tm_isdst := 0\<rparr>) tp,
                          errno)
               else Some (ret, tp, errno)))"

text \<open>\<open>memset(tp, 0, sizeof(struct tm))\<close> leaves this record.\<close>

definition tm_zeroed :: tm where
  "tm_zeroed = \<lparr>tm_sec = 0, tm_min = 0, tm_hour = 0, tm_mday = 0, tm_mon = 0, tm_year = 0,
                 tm_wday = 0, tm_yday = 0, tm_isdst = 0, tm_gmtoff = 0, tm_zone = None\<rparr>"

text \<open>
  \<open>fastkst_localtime_safe\<close>: the third argument is the object \<open>err_code\<close> points to
  (\<open>None\<close> for \<open>NULL\<close>); the result is the return value, the record, that object and
  \<open>errno\<close>.
\<close>

definition fastkst_localtime_safe ::
    "int \<Rightarrow> tm option \<Rightarrow> int option \<Rightarrow> int \<Rightarrow> (int \<times> tm option \<times> int option \<times> int) option" where
  "fastkst_localtime_safe t tp err_code errno =
     (case tp of
        None \<Rightarrow> Some (0, None, map_option (\<lambda>_. EINVAL) err_code, errno)
      | Some _ \<Rightarrow>
          let tp = Some tm_zeroed in
          (case fastkst_localtime t tp errno of
             None \<Rightarrow> None
           | Some (ret, tp, errno) \<Rightarrow>
               if ret = 0
               then let local_errno = errno
                    in Some (ret, tp, map_option (\<lambda>_. local_errno) err_code, errno)
               else Some (ret, tp, err_code, errno)))"

section \<open>The calendar of the specification\<close>

text \<open>
  The proleptic Gregorian calendar in the specification's words, independent of the code:
  a year is a leap year iff it is divisible by 4 and (not divisible by 100 or divisible by
  400); the days from 1970-01-01 to a civil date are counted year by year and month by
  month. Months are numbered from 0 and days of the month from 1, as in \<open>struct tm\<close>.
\<close>

definition gregorian_leap :: "int \<Rightarrow> bool" where
  "gregorian_leap y \<longleftrightarrow> 4 dvd y \<and> (\<not> 100 dvd y \<or> 400 dvd y)"

definition days_in_year :: "int \<Rightarrow> int" where
  "days_in_year y = (if gregorian_leap y then 366 else 365)"

definition days_in_month :: "bool \<Rightarrow> nat \<Rightarrow> int" where
  "days_in_month leap m =
     [31, if leap then 29 else 28, 31, 30, 31, 30, 31, 31, 30, 31, 30, 31] ! m"

definition days_before_year :: "int \<Rightarrow> int" where
  "days_before_year Y =
     (if 1970 \<le> Y then sum_list (map days_in_year [1970..Y - 1])
      else - sum_list (map days_in_year [Y..1969]))"

definition days_from_civil :: "int \<Rightarrow> int \<Rightarrow> int \<Rightarrow> int" where
  "days_from_civil Y mon mday =
     days_before_year Y
     + sum_list (map (days_in_month (gregorian_leap Y)) [0..<nat mon])
     + (mday - 1)"

text \<open>
  The epoch-seconds of a record under a fixed offset: the days since the epoch times
  86400, plus the time of day, minus the offset.
\<close>

definition epoch_seconds :: "tm \<Rightarrow> int \<Rightarrow> int" where
  "epoch_seconds r offset =
     days_from_civil (tm_year r + 1900) (tm_mon r) (tm_mday r) * 86400
     + (tm_hour r * 3600 + tm_min r * 60 + tm_sec r) - offset"

text \<open>
  A record holds a civil time of that calendar when its month is in 0..11, its day of the
  month is from 1 to the length of that month in its year, and its time of day is from
  00:00:00 to 23:59:59.
\<close>

definition valid_civil :: "tm \<Rightarrow> bool" where
  "valid_civil r \<longleftrightarrow>
     0 \<le> tm_mon r \<and> tm_mon r \<le> 11
     \<and> 1 \<le> tm_mday r
     \<and> tm_mday r \<le> days_in_month (gregorian_leap (tm_year r + 1900)) (nat (tm_mon r))
     \<and> 0 \<le> tm_hour r \<and> tm_hour r \<le> 23
     \<and> 0 \<le> tm_min r \<and> tm_min r \<le> 59
     \<and> 0 \<le> tm_sec r \<and> tm_sec r \<le> 59"

section \<open>The values the year resolver computes\<close>

text \<open>
  To show that the 64-bit arithmetic of the source does not overflow, the values of all
  subexpressions of \<open>DIV\<close>, of \<open>LEAPS_THRU_END_OF\<close> and of one run of the body of the
  year resolver are listed in the order C evaluates them, and the states at the head of
  the loop are those reached from \<open>(1970, days)\<close> by runs of the body under the guard.
  \<open>mag M v\<close> bounds the magnitude of \<open>v\<close> by \<open>M\<close>.
\<close>

definition DIV_values :: "int \<Rightarrow> int \<Rightarrow> int list" where
  "DIV_values a b = [a sdiv b, a smod b, DIV a b]"

definition LEAPS_values :: "int \<Rightarrow> int list" where
  "LEAPS_values y =
     DIV_values y 4 @ DIV_values y 100 @ [DIV y 4 - DIV y 100] @ DIV_values y 400
     @ [LEAPS_THRU_END_OF y]"

definition year_body_values :: "int \<times> int \<Rightarrow> int list" where
  "year_body_values s =
     (case s of (y, days) \<Rightarrow>
        let yg = y + days sdiv 365 - (if days smod 365 < 0 then 1 else 0)
        in [days sdiv 365, days smod 365, y + days sdiv 365, yg, yg - y, (yg - y) * 365, yg - 1]
           @ LEAPS_values (yg - 1)
           @ [(yg - y) * 365 + LEAPS_THRU_END_OF (yg - 1), y - 1]
           @ LEAPS_values (y - 1)
           @ [(yg - y) * 365 + LEAPS_THRU_END_OF (yg - 1) - LEAPS_THRU_END_OF (y - 1),
              days - ((yg - y) * 365 + LEAPS_THRU_END_OF (yg - 1) - LEAPS_THRU_END_OF (y - 1))])"

inductive year_reach :: "int \<Rightarrow> int \<times> int \<Rightarrow> bool" for D :: int where
  start: "year_reach D (1970, D)"
| step: "year_reach D s \<Longrightarrow> year_guard s \<Longrightarrow> year_reach D (year_body s)"

definition mag :: "int \<Rightarrow> int \<Rightarrow> bool" where
  "mag M v \<longleftrightarrow> - M \<le> v \<and> v \<le> M"

section \<open>The day/time splitter\<close>

lemma SPD: "SECS_PER_DAY = 86400"
  by (simp add: SECS_PER_DAY_def SECS_PER_HOUR_def)

lemma div_mod_small_neg:
  fixes a b :: int
  assumes "- b \<le> a" "a < 0"
  shows "a div b = - 1" "a mod b = a + b"
proof -
  have eq: "a = b * (- 1) + (a + b)" by simp
  have nn: "0 \<le> a + b" using assms by linarith
  have lt: "a + b < b" using assms by linarith
  show "a div b = - 1" by (rule int_div_pos_eq[OF eq nn lt])
  show "a mod b = a + b" by (rule int_mod_pos_eq[OF eq nn lt])
qed

lemma loop_neg_eq:
  "loop_neg (rem, days) = (if rem < 0 then (rem mod 86400, days + rem div 86400) else (rem, days))"
proof (induction "(rem, days)" arbitrary: rem days rule: loop_neg.induct)
  case (1 rem days)
  show ?case
  proof (cases "rem < 0")
    case neg: True
    have step: "loop_neg (rem, days) = loop_neg (rem + 86400, days - 1)"
      using neg by (subst loop_neg.simps) (simp add: SPD)
    show ?thesis
    proof (cases "rem + 86400 < 0")
      case True
      have "loop_neg (rem + 86400, days - 1) = ((rem + 86400) mod 86400, days - 1 + (rem + 86400) div 86400)"
        using 1[OF neg] True by (simp add: SPD)
      also have "\<dots> = (rem mod 86400, days + rem div 86400)" by simp
      finally show ?thesis using step neg by simp
    next
      case False
      then have lo: "- 86400 \<le> rem" by simp
      have "loop_neg (rem + 86400, days - 1) = (rem + 86400, days - 1)"
        using False by (subst loop_neg.simps) simp
      also have "\<dots> = (rem mod 86400, days + rem div 86400)"
        using div_mod_small_neg[OF lo neg] by simp
      finally show ?thesis using step neg by simp
    qed
  next
    case False
    then show ?thesis by (subst loop_neg.simps) simp
  qed
qed

lemma loop_neg_iters_eq:
  "loop_neg_iters (rem, days) = (if rem < 0 then nat (- (rem div 86400)) else 0)"
proof (induction "(rem, days)" arbitrary: rem days rule: loop_neg_iters.induct)
  case (1 rem days)
  show ?case
  proof (cases "rem < 0")
    case neg: True
    have step: "loop_neg_iters (rem, days) = Suc (loop_neg_iters (rem + 86400, days - 1))"
      using neg by (subst loop_neg_iters.simps) (simp add: SPD)
    show ?thesis
    proof (cases "rem + 86400 < 0")
      case True
      have d: "(rem + 86400) div 86400 = rem div 86400 + 1" by simp
      have "rem div 86400 + 1 \<le> (- 1) div 86400"
        unfolding d [symmetric] by (rule zdiv_mono1) (use True in simp_all)
      then have neg2: "rem div 86400 + 1 < 0" by simp
      have "loop_neg_iters (rem + 86400, days - 1) = nat (- ((rem + 86400) div 86400))"
        using 1[OF neg] True by (simp add: SPD)
      then show ?thesis using step neg neg2 unfolding d by simp
    next
      case False
      then have lo: "- 86400 \<le> rem" by simp
      have "loop_neg_iters (rem + 86400, days - 1) = 0"
        using False by (subst loop_neg_iters.simps) simp
      then show ?thesis using step neg div_mod_small_neg(1)[OF lo neg] by simp
    qed
  next
    case False
    then show ?thesis by (subst loop_neg_iters.simps) simp
  qed
qed

lemma loop_pos_eq:
  "0 \<le> rem \<Longrightarrow> loop_pos (rem, days) = (rem mod 86400, days + rem div 86400)"
proof (induction "(rem, days)" arbitrary: rem days rule: loop_pos.induct)
  case (1 rem days)
  show ?case
  proof (cases "86400 \<le> rem")
    case True
    have step: "loop_pos (rem, days) = loop_pos (rem - 86400, days + 1)"
      using True by (subst loop_pos.simps) (simp add: SPD)
    have "loop_pos (rem - 86400, days + 1) = ((rem - 86400) mod 86400, days + 1 + (rem - 86400) div 86400)"
      using 1(1) True by (simp add: SPD)
    also have "\<dots> = (rem mod 86400, days + rem div 86400)"
      using div_add_self2[of 86400 "rem - 86400"] mod_add_self2[of "rem - 86400" 86400] by simp
    finally show ?thesis using step by simp
  next
    case False
    with 1(2) show ?thesis by (subst loop_pos.simps) (simp add: SPD)
  qed
qed

lemma loop_pos_iters_eq:
  "0 \<le> rem \<Longrightarrow> loop_pos_iters (rem, days) = nat (rem div 86400)"
proof (induction "(rem, days)" arbitrary: rem days rule: loop_pos_iters.induct)
  case (1 rem days)
  show ?case
  proof (cases "86400 \<le> rem")
    case True
    have step: "loop_pos_iters (rem, days) = Suc (loop_pos_iters (rem - 86400, days + 1))"
      using True by (subst loop_pos_iters.simps) (simp add: SPD)
    have d: "rem div 86400 = (rem - 86400) div 86400 + 1"
      using div_add_self2[of 86400 "rem - 86400"] by simp
    have nn: "0 \<le> (rem - 86400) div 86400"
      using True by (simp add: pos_imp_zdiv_nonneg_iff)
    have "loop_pos_iters (rem - 86400, days + 1) = nat ((rem - 86400) div 86400)"
      using 1(1) True by (simp add: SPD)
    then show ?thesis using step nn unfolding d by simp
  next
    case False
    with 1(2) show ?thesis by (subst loop_pos_iters.simps) (simp add: SPD)
  qed
qed

text \<open>The two loops together compute the floor quotient and remainder of \<open>t + offset\<close>.\<close>

lemma split_eq:
  "loop_pos (loop_neg (t smod SECS_PER_DAY + offset, t sdiv SECS_PER_DAY))
     = ((t + offset) mod 86400, (t + offset) div 86400)"
proof -
  define q0 where "q0 = t sdiv 86400"
  define r0 where "r0 = t smod 86400 + offset"
  have t: "t + offset = r0 + q0 * 86400"
    unfolding q0_def r0_def using smod_sdiv_mult_eq[of t 86400] by simp
  have res: "((t + offset) mod 86400, (t + offset) div 86400) = (r0 mod 86400, q0 + r0 div 86400)"
    unfolding t by simp
  have "loop_pos (loop_neg (r0, q0)) = (r0 mod 86400, q0 + r0 div 86400)"
  proof (cases "r0 < 0")
    case True
    have m: "\<not> 86400 \<le> r0 mod 86400" by (simp add: not_le)
    have "loop_pos (r0 mod 86400, q0 + r0 div 86400) = (r0 mod 86400, q0 + r0 div 86400)"
      using m by (subst loop_pos.simps) (simp add: SPD)
    then show ?thesis using True by (simp add: loop_neg_eq)
  next
    case False
    then show ?thesis by (simp add: loop_neg_eq loop_pos_eq)
  qed
  then show ?thesis unfolding res SPD q0_def r0_def .
qed

lemma smod_range: "0 < b \<Longrightarrow> - b < (a::int) smod b \<and> a smod b < b"
  using pos_mod_sign[of b a] pos_mod_bound[of b a]
  by (auto simp: smod_pos simp del: pos_mod_sign pos_mod_bound)

lemma split_iters:
  assumes "- 86400 < offset" "offset < 86400"
  shows "loop_neg_iters (t smod SECS_PER_DAY + offset, t sdiv SECS_PER_DAY) \<le> 2"
    and "loop_pos_iters (loop_neg (t smod SECS_PER_DAY + offset, t sdiv SECS_PER_DAY)) \<le> 2"
proof -
  define q0 where "q0 = t sdiv 86400"
  define r0 where "r0 = t smod 86400 + offset"
  have rng: "- 172800 \<le> r0" "r0 \<le> 172799"
    using smod_range[of 86400 t] assms unfolding r0_def by simp_all
  have "(- 172800) div 86400 \<le> r0 div 86400" by (rule zdiv_mono1) (use rng in simp_all)
  then have lo: "- 2 \<le> r0 div 86400" by simp
  have "r0 div 86400 \<le> 172799 div 86400" by (rule zdiv_mono1) (use rng in simp_all)
  then have hi: "r0 div 86400 \<le> 1" by simp
  have "nat (- (r0 div 86400)) \<le> 2"
    unfolding nat_le_iff using lo by simp
  then have "loop_neg_iters (r0, q0) \<le> 2"
    by (simp add: loop_neg_iters_eq)
  then show "loop_neg_iters (t smod SECS_PER_DAY + offset, t sdiv SECS_PER_DAY) \<le> 2"
    unfolding SPD q0_def r0_def .
  have "loop_pos_iters (loop_neg (r0, q0)) \<le> 2"
  proof (cases "r0 < 0")
    case True
    have m: "\<not> 86400 \<le> r0 mod 86400" by (simp add: not_le)
    have "loop_pos_iters (r0 mod 86400, q0 + r0 div 86400) = 0"
      using m by (subst loop_pos_iters.simps) (simp add: SPD)
    then show ?thesis using True by (simp add: loop_neg_eq)
  next
    case False
    have "nat (r0 div 86400) \<le> 2"
      unfolding nat_le_iff using hi by simp
    then show ?thesis using False by (simp add: loop_neg_eq loop_pos_iters_eq)
  qed
  then show "loop_pos_iters (loop_neg (t smod SECS_PER_DAY + offset, t sdiv SECS_PER_DAY)) \<le> 2"
    unfolding SPD q0_def r0_def .
qed

section \<open>Casts, the time of day and the weekday\<close>

lemma cast_int_id: "INT_MIN \<le> x \<Longrightarrow> x \<le> INT_MAX \<Longrightarrow> cast_int x = x"
  unfolding cast_int_def INT_MIN_def INT_MAX_def by simp

lemma sdiv_nonneg: "0 \<le> a \<Longrightarrow> 0 < b \<Longrightarrow> (a::int) sdiv b = a div b"
  by (simp add: sdiv_pos)

lemma smod_nonneg: "0 \<le> a \<Longrightarrow> 0 < b \<Longrightarrow> (a::int) smod b = a mod b"
  by (simp add: smod_pos)

lemma div_bounds:
  fixes a b c :: int
  assumes "0 \<le> a" "a < b * c" "0 < b"
  shows "0 \<le> a div b" "a div b < c"
proof -
  show "0 \<le> a div b" using assms by (simp add: pos_imp_zdiv_nonneg_iff)
  have "b * (a div b) + a mod b = a" by simp
  moreover have "0 \<le> a mod b" using assms(3) by simp
  ultimately have "b * (a div b) < b * c" using assms(2) by linarith
  then show "a div b < c" using assms(3) by (simp add: mult_less_cancel_left_pos)
qed

lemma hour_field:
  assumes "0 \<le> R" "R < 86400"
  shows "cast_int (R sdiv SECS_PER_HOUR) = R div 3600" "0 \<le> R div 3600" "R div 3600 < 24"
proof -
  show nn: "0 \<le> R div 3600" and lt: "R div 3600 < 24"
    using div_bounds[of R 3600 24] assms by simp_all
  have "cast_int (R div 3600) = R div 3600"
    by (rule cast_int_id) (use nn lt in \<open>simp_all add: INT_MIN_def INT_MAX_def\<close>)
  then show "cast_int (R sdiv SECS_PER_HOUR) = R div 3600"
    using assms by (simp add: SECS_PER_HOUR_def sdiv_nonneg)
qed

lemma min_field:
  assumes "0 \<le> R"
  shows "cast_int ((R smod SECS_PER_HOUR) sdiv 60) = R mod 3600 div 60"
    "0 \<le> R mod 3600 div 60" "R mod 3600 div 60 < 60"
proof -
  have m: "0 \<le> R mod 3600" "R mod 3600 < 60 * 60" by simp_all
  show nn: "0 \<le> R mod 3600 div 60" and lt: "R mod 3600 div 60 < 60"
    using div_bounds[OF m] by simp_all
  have "cast_int (R mod 3600 div 60) = R mod 3600 div 60"
    by (rule cast_int_id) (use nn lt in \<open>simp_all add: INT_MIN_def INT_MAX_def\<close>)
  then show "cast_int ((R smod SECS_PER_HOUR) sdiv 60) = R mod 3600 div 60"
    using assms m(1) by (simp add: SECS_PER_HOUR_def sdiv_nonneg smod_nonneg)
qed

lemma sec_field:
  assumes "0 \<le> R"
  shows "cast_int ((R smod SECS_PER_HOUR) smod 60) = R mod 60"
proof -
  have m: "0 \<le> R mod 3600" by simp
  have "(60::int) dvd 3600" by simp
  then have mm: "R mod 3600 mod 60 = R mod 60" by (rule mod_mod_cancel)
  have "cast_int (R mod 60) = R mod 60"
    by (rule cast_int_id) (simp_all add: INT_MIN_def INT_MAX_def)
  then show ?thesis
    using assms m by (simp add: SECS_PER_HOUR_def smod_nonneg mm)
qed

text \<open>\<open>tm_wday\<close> after the correction of a negative remainder.\<close>

lemma wday_field:
  "(let w = cast_int (a smod 7) in if w < 0 then w + 7 else w) = a mod 7"
proof -
  have rng: "- 7 < a smod 7" "a smod 7 < 7" using smod_range[of 7 a] by simp_all
  have c: "cast_int (a smod 7) = a smod 7"
    by (rule cast_int_id) (use rng in \<open>simp_all add: INT_MIN_def INT_MAX_def\<close>)
  show ?thesis
    unfolding Let_def c using pos_mod_bound[of 7 a] pos_mod_sign[of 7 a]
    by (auto simp: smod_pos simp del: pos_mod_bound pos_mod_sign)
qed

lemma time_of_day_sum:
  "(R::int) div 3600 * 3600 + R mod 3600 div 60 * 60 + R mod 60 = R"
proof -
  have "(60::int) dvd 3600" by simp
  then have mm: "R mod 3600 mod 60 = R mod 60" by (rule mod_mod_cancel)
  have "R mod 3600 div 60 * 60 + R mod 3600 mod 60 = R mod 3600" by simp
  then have "R div 3600 * 3600 + (R mod 3600 div 60 * 60 + R mod 60) = R div 3600 * 3600 + R mod 3600"
    unfolding mm by simp
  then show ?thesis by simp
qed

section \<open>The year resolver\<close>

lemma isleap_gregorian: "isleap y = gregorian_leap y"
  by (simp add: isleap_dvd gregorian_leap_def)

lemma days_in_year_leaps:
  "days_in_year y = 365 + (LEAPS_THRU_END_OF y - LEAPS_THRU_END_OF (y - 1))"
  using leaps_step[of "y - 1"] by (simp add: days_in_year_def isleap_gregorian)

lemma days_before_year_step: "days_before_year (Y + 1) = days_before_year Y + days_in_year Y"
proof -
  consider "1970 \<le> Y" | "Y = 1969" | "Y < 1969" by linarith
  then show ?thesis
  proof cases
    case 1
    then have "[1970..Y] = [1970..Y - 1] @ [Y]" by (rule upto_rec2)
    then show ?thesis using 1 by (simp add: days_before_year_def)
  next
    case 2
    then show ?thesis by (simp add: days_before_year_def)
  next
    case 3
    then have "[Y..1969] = Y # [Y + 1..1969]" by (simp add: upto_rec1)
    then show ?thesis using 3 by (simp add: days_before_year_def)
  qed
qed

text \<open>The closed form the code uses for the day count of the specification.\<close>

lemma days_before_year_closed:
  "days_before_year Y = 365 * (Y - 1970) + LEAPS_THRU_END_OF (Y - 1) - LEAPS_THRU_END_OF 1969"
proof (induction Y rule: int_induct[where k = 1970])
  case base
  show ?case by (simp add: days_before_year_def)
next
  case (step1 i)
  have "days_before_year (i + 1) = days_before_year i + days_in_year i"
    by (rule days_before_year_step)
  then show ?case unfolding step1.IH days_in_year_leaps by simp
next
  case (step2 i)
  have "days_before_year (i - 1 + 1) = days_before_year (i - 1) + days_in_year (i - 1)"
    by (rule days_before_year_step)
  then have "days_before_year (i - 1) = days_before_year i - days_in_year (i - 1)" by simp
  then show ?case unfolding step2.IH days_in_year_leaps by simp
qed

lemma days_before_year_mono:
  assumes "y1 \<le> y2"
  shows "days_before_year y1 + 365 * (y2 - y1) \<le> days_before_year y2"
proof -
  have "0 \<le> y2 - y1" using assms by simp
  from leaps_diff[OF this, of "y1 - 1"]
  have "0 \<le> LEAPS_THRU_END_OF (y2 - 1) - LEAPS_THRU_END_OF (y1 - 1)"
    by (simp add: algebra_simps)
  then show ?thesis unfolding days_before_year_closed by simp
qed

text \<open>One run of the body keeps the day the pair \<open>(y, days)\<close> stands for.\<close>

lemma year_body_day:
  assumes "year_body (y, d) = (yg, d')"
  shows "d' + days_before_year yg = d + days_before_year y"
proof -
  define q where "q = d div 365"
  define r where "r = d mod 365"
  have d: "d = 365 * q + r" unfolding q_def r_def by simp
  have "yg = y + q" "d' = r - (LEAPS_THRU_END_OF (y + q - 1) - LEAPS_THRU_END_OF (y - 1))"
    using assms unfolding year_body_floor q_def r_def by auto
  then show ?thesis unfolding days_before_year_closed d by simp
qed

lemma year_loop_exit_aux:
  "year_loop s = s' \<Longrightarrow>
     \<not> year_guard s' \<and> snd s' + days_before_year (fst s') = snd s + days_before_year (fst s)"
proof (induction s rule: year_loop.induct)
  case (1 s)
  show ?case
  proof (cases "year_guard s")
    case True
    have l: "year_loop (year_body s) = s'"
      using "1.prems" True by (subst (asm) year_loop.simps) simp
    have "year_body (fst s, snd s) = (fst (year_body s), snd (year_body s))" by simp
    from "1.IH"[OF True l] year_body_day[OF this]
    show ?thesis by simp
  next
    case False
    then have "s' = s" using "1.prems" by (subst (asm) year_loop.simps) simp
    with False show ?thesis by simp
  qed
qed

lemma year_loop_exit:
  "year_loop (y, d) = (y', d') \<Longrightarrow>
     \<not> year_guard (y', d') \<and> d' + days_before_year y' = d + days_before_year y"
  using year_loop_exit_aux[of "(y, d)" "(y', d')"] by simp

text \<open>The year of a day is unique: the loop's exit state is the only one for its day.\<close>

lemma year_unique:
  assumes "\<not> year_guard (y1, d1)" "\<not> year_guard (y2, d2)"
    and "d1 + days_before_year y1 = d2 + days_before_year y2"
  shows "y1 = y2 \<and> d1 = d2"
proof -
  have r1: "0 \<le> d1" "d1 < days_in_year y1"
    using assms(1) by (auto simp: year_guard_def days_in_year_def isleap_gregorian split: if_splits)
  have r2: "0 \<le> d2" "d2 < days_in_year y2"
    using assms(2) by (auto simp: year_guard_def days_in_year_def isleap_gregorian split: if_splits)
  have lt: False if "ya < yb" "0 \<le> db" "da < days_in_year ya"
    "da + days_before_year ya = db + days_before_year yb" for ya yb da db
  proof -
    have "days_before_year (ya + 1) + 365 * (yb - (ya + 1)) \<le> days_before_year yb"
      by (rule days_before_year_mono) (use that in simp)
    moreover have "0 \<le> 365 * (yb - (ya + 1))" using that by simp
    ultimately have "days_before_year ya + days_in_year ya \<le> days_before_year yb"
      unfolding days_before_year_step by linarith
    with that show False by linarith
  qed
  have "y1 = y2"
  proof (rule ccontr)
    assume "y1 \<noteq> y2"
    then consider "y1 < y2" | "y2 < y1" by linarith
    then show False
    proof cases
      case 1
      from lt[OF 1 r2(1) r1(2) assms(3)] show False .
    next
      case 2
      from lt[OF 2 r1(1) r2(2) assms(3) [symmetric]] show False .
    qed
  qed
  with assms(3) show ?thesis by simp
qed

lemma year_loop_eqI:
  assumes "\<not> year_guard (y', d')" "d' + days_before_year y' = d + days_before_year y"
  shows "year_loop (y, d) = (y', d')"
proof -
  obtain y2 d2 where l: "year_loop (y, d) = (y2, d2)" by (cases "year_loop (y, d)")
  from year_loop_exit[OF l] assms year_unique[of y2 d2 y' d'] show ?thesis
    unfolding l by simp
qed

section \<open>The month scan\<close>

lemma mon_scan_Some:
  "0 \<le> y \<Longrightarrow> y < int (length ip) \<Longrightarrow> ip ! 0 \<le> d \<Longrightarrow>
     \<exists>m. mon_scan ip d y = Some m \<and> 0 \<le> m \<and> m \<le> y \<and> ip ! nat m \<le> d
         \<and> (m < y \<longrightarrow> d < ip ! nat (m + 1))"
proof (induction ip d y rule: mon_scan.induct)
  case (1 ip d y)
  have inb: "\<not> (y < 0 \<or> int (length ip) \<le> y)" using "1.prems" by simp
  show ?case
  proof (cases "d < ip ! nat y")
    case True
    have "y \<noteq> 0" using True "1.prems"(3) by auto
    then have y1: "0 \<le> y - 1" "y - 1 < int (length ip)" using "1.prems" by simp_all
    from "1.IH"[OF inb True y1 "1.prems"(3)] obtain m where
      m: "mon_scan ip d (y - 1) = Some m" "0 \<le> m" "m \<le> y - 1" "ip ! nat m \<le> d"
        "m < y - 1 \<longrightarrow> d < ip ! nat (m + 1)"
      by blast
    have s: "mon_scan ip d y = Some m"
      using inb True m(1) by (subst mon_scan.simps) simp
    have "d < ip ! nat (m + 1)"
    proof (cases "m < y - 1")
      case True
      with m(5) show ?thesis by simp
    next
      case False
      with m(3) have "m + 1 = y" by simp
      with True show ?thesis by simp
    qed
    with s m show ?thesis by simp
  next
    case False
    have "mon_scan ip d y = Some y"
      using inb False by (subst mon_scan.simps) simp
    with False "1.prems" show ?thesis by simp
  qed
qed

lemma mon_yday_row_cases:
  "mon_yday_row y = (if isleap y
     then [0, 31, 60, 91, 121, 152, 182, 213, 244, 274, 305, 335, 366]
     else [0, 31, 59, 90, 120, 151, 181, 212, 243, 273, 304, 334, 365])"
  by (simp add: mon_yday_row_def mon_yday_def)

lemma month_cases:
  assumes "0 \<le> m" "m \<le> 11"
  shows "m = 0 \<or> m = 1 \<or> m = 2 \<or> m = 3 \<or> m = 4 \<or> m = 5 \<or> m = 6 \<or> m = 7 \<or> m = 8
    \<or> m = 9 \<or> m = 10 \<or> m = (11::int)"
  using assms by presburger

text \<open>The table holds the days before each month, as the calendar counts them.\<close>

lemma mon_yday_row_months:
  assumes "0 \<le> m" "m \<le> 12"
  shows "mon_yday_row y ! nat m = sum_list (map (days_in_month (gregorian_leap y)) [0..<nat m])"
proof -
  have "m = 12 \<or> (0 \<le> m \<and> m \<le> 11)" using assms by linarith
  then have c: "m = 0 \<or> m = 1 \<or> m = 2 \<or> m = 3 \<or> m = 4 \<or> m = 5 \<or> m = 6 \<or> m = 7 \<or> m = 8
    \<or> m = 9 \<or> m = 10 \<or> m = 11 \<or> m = 12" using month_cases[of m] by blast
  show ?thesis
  proof (cases "gregorian_leap y")
    case True
    then have r: "mon_yday_row y = [0, 31, 60, 91, 121, 152, 182, 213, 244, 274, 305, 335, 366]"
      by (simp add: mon_yday_row_cases isleap_gregorian)
    show ?thesis unfolding r using c True
      by (elim disjE) (simp_all add: days_in_month_def eval_nat_numeral)
  next
    case False
    then have r: "mon_yday_row y = [0, 31, 59, 90, 120, 151, 181, 212, 243, 273, 304, 334, 365]"
      by (simp add: mon_yday_row_cases isleap_gregorian)
    show ?thesis unfolding r using c False
      by (elim disjE) (simp_all add: days_in_month_def eval_nat_numeral)
  qed
qed

lemma mon_yday_row_step:
  assumes "0 \<le> m" "m \<le> 11"
  shows "mon_yday_row y ! nat (m + 1) \<le> mon_yday_row y ! nat m + 31"
proof (cases "isleap y")
  case True
  then have r: "mon_yday_row y = [0, 31, 60, 91, 121, 152, 182, 213, 244, 274, 305, 335, 366]"
    by (simp add: mon_yday_row_cases)
  show ?thesis unfolding r using month_cases[OF assms]
    by (elim disjE) simp_all
next
  case False
  then have r: "mon_yday_row y = [0, 31, 59, 90, 120, 151, 181, 212, 243, 273, 304, 334, 365]"
    by (simp add: mon_yday_row_cases)
  show ?thesis unfolding r using month_cases[OF assms]
    by (elim disjE) simp_all
qed

lemma mon_yday_row_ends:
  "length (mon_yday_row y) = 13" "mon_yday_row y ! 0 = 0"
  "mon_yday_row y ! nat 12 = (if isleap y then 366 else 365)"
  by (simp_all add: mon_yday_row_cases)

text \<open>
  For a day of the year \<open>d\<close> of year \<open>y\<close> the scan from index 11 stops at the month
  \<open>m\<close> in 0..11 whose table interval holds \<open>d\<close>, and the day of the month is in 1..31.
\<close>

lemma mon_scan_row:
  assumes "\<not> year_guard (y, d)"
  shows "\<exists>m. mon_scan (mon_yday_row y) d 11 = Some m \<and> 0 \<le> m \<and> m \<le> 11
           \<and> mon_yday_row y ! nat m \<le> d \<and> d < mon_yday_row y ! nat (m + 1)
           \<and> 1 \<le> d - mon_yday_row y ! nat m + 1 \<and> d - mon_yday_row y ! nat m + 1 \<le> 31"
proof -
  have d: "0 \<le> d" "d < (if isleap y then 366 else 365)"
    using assms by (auto simp: year_guard_def split: if_splits)
  have "\<exists>m. mon_scan (mon_yday_row y) d 11 = Some m \<and> 0 \<le> m \<and> m \<le> 11
      \<and> mon_yday_row y ! nat m \<le> d \<and> (m < 11 \<longrightarrow> d < mon_yday_row y ! nat (m + 1))"
    by (rule mon_scan_Some) (use d in \<open>simp_all add: mon_yday_row_ends\<close>)
  then obtain m where m: "mon_scan (mon_yday_row y) d 11 = Some m" "0 \<le> m" "m \<le> 11"
      "mon_yday_row y ! nat m \<le> d" "m < 11 \<longrightarrow> d < mon_yday_row y ! nat (m + 1)"
    by blast
  have up: "d < mon_yday_row y ! nat (m + 1)"
  proof (cases "m < 11")
    case True
    with m(5) show ?thesis by simp
  next
    case False
    with m(3) have "m = 11" by simp
    then show ?thesis using d(2) mon_yday_row_ends(3)[of y] by simp
  qed
  from mon_yday_row_step[OF m(2,3), of y] up m(4)
  have "1 \<le> d - mon_yday_row y ! nat m + 1 \<and> d - mon_yday_row y ! nat m + 1 \<le> 31"
    by linarith
  with m up show ?thesis by blast
qed

section \<open>What the three functions compute\<close>

lemma wday_cases:
  "cast_int (a smod 7) < 0 \<Longrightarrow> cast_int (a smod 7) + 7 = a mod 7"
  "\<not> cast_int (a smod 7) < 0 \<Longrightarrow> cast_int (a smod 7) = a mod 7"
  using wday_field[of a] unfolding Let_def by (simp_all split: if_splits)

lemma offtime64_eq:
  assumes yl: "year_loop (1970, (t + offset) div 86400) = (y, d)"
    and ms: "mon_scan (mon_yday_row y) d 11 = Some m"
  shows "offtime64 t offset (Some r) errno =
     (if y < INT_MIN + 1900 \<or> y > INT_MAX + 1900
      then Some (0, Some (r\<lparr>tm_hour := (t + offset) mod 86400 div 3600,
                            tm_min := (t + offset) mod 86400 mod 3600 div 60,
                            tm_sec := (t + offset) mod 86400 mod 60,
                            tm_wday := (4 + (t + offset) div 86400) mod 7\<rparr>), EOVERFLOW)
      else Some (1, Some (r\<lparr>tm_hour := (t + offset) mod 86400 div 3600,
                            tm_min := (t + offset) mod 86400 mod 3600 div 60,
                            tm_sec := (t + offset) mod 86400 mod 60,
                            tm_wday := (4 + (t + offset) div 86400) mod 7,
                            tm_year := y - 1900, tm_yday := d, tm_mon := m,
                            tm_mday := d - mon_yday_row y ! nat m + 1\<rparr>), errno))"
proof -
  define R where "R = (t + offset) mod 86400"
  define D where "D = (t + offset) div 86400"
  have R: "0 \<le> R" "R < 86400" unfolding R_def by simp_all
  have split: "loop_pos (loop_neg (t smod SECS_PER_DAY + offset, t sdiv SECS_PER_DAY)) = (R, D)"
    unfolding R_def D_def by (rule split_eq)
  have yl': "year_loop (1970, D) = (y, d)" using yl unfolding D_def .
  from year_loop_exit[OF yl'] have ng: "\<not> year_guard (y, d)" by simp
  then have d: "0 \<le> d" "d < 366"
    by (auto simp: year_guard_def split: if_splits)
  from mon_scan_row[OF ng] ms have m: "0 \<le> m" "m \<le> 11"
    "1 \<le> d - mon_yday_row y ! nat m + 1" "d - mon_yday_row y ! nat m + 1 \<le> 31"
    by auto
  have cd: "cast_int d = d"
    by (rule cast_int_id) (use d in \<open>simp_all add: INT_MIN_def INT_MAX_def\<close>)
  have cm: "cast_int m = m"
    by (rule cast_int_id) (use m in \<open>simp_all add: INT_MIN_def INT_MAX_def\<close>)
  have cmd: "cast_int (d - mon_yday_row y ! nat m + 1) = d - mon_yday_row y ! nat m + 1"
    by (rule cast_int_id) (use m in \<open>simp_all add: INT_MIN_def INT_MAX_def\<close>)
  have cy: "cast_int (y - 1900) = y - 1900"
    if "\<not> (y < INT_MIN + 1900 \<or> y > INT_MAX + 1900)"
    by (rule cast_int_id) (use that in simp_all)
  show ?thesis
  proof (cases "cast_int ((4 + D) smod 7) < 0")
    case True
    show ?thesis
      unfolding offtime64_def R_def [symmetric] D_def [symmetric]
      using True wday_cases(1)[OF True]
      by (simp add: Let_def split_def split yl' ms hour_field(1)[OF R] min_field(1)[OF R(1)]
          sec_field[OF R(1)] cd cm cmd cy)
  next
    case False
    show ?thesis
      unfolding offtime64_def R_def [symmetric] D_def [symmetric]
      using False wday_cases(2)[OF False]
      by (simp add: Let_def split_def split yl' ms hour_field(1)[OF R] min_field(1)[OF R(1)]
          sec_field[OF R(1)] cd cm cmd cy)
  qed
qed


lemma year_loop_total:
  "\<exists>y d m. year_loop (1970, D) = (y, d) \<and> mon_scan (mon_yday_row y) d 11 = Some m"
proof -
  obtain y d where yl: "year_loop (1970, D) = (y, d)" by (cases "year_loop (1970, D)")
  from year_loop_exit[OF yl] have "\<not> year_guard (y, d)" by simp
  from mon_scan_row[OF this] yl show ?thesis by blast
qed

lemma fastkst_localtime_eq:
  assumes yl: "year_loop (1970, (t + 32400) div 86400) = (y, d)"
    and ms: "mon_scan (mon_yday_row y) d 11 = Some m"
  shows "fastkst_localtime t (Some r) errno =
     (if y < INT_MIN + 1900 \<or> y > INT_MAX + 1900
      then Some (0, Some (r\<lparr>tm_hour := (t + 32400) mod 86400 div 3600,
                            tm_min := (t + 32400) mod 86400 mod 3600 div 60,
                            tm_sec := (t + 32400) mod 86400 mod 60,
                            tm_wday := (4 + (t + 32400) div 86400) mod 7\<rparr>), EOVERFLOW)
      else Some (1, Some (r\<lparr>tm_hour := (t + 32400) mod 86400 div 3600,
                            tm_min := (t + 32400) mod 86400 mod 3600 div 60,
                            tm_sec := (t + 32400) mod 86400 mod 60,
                            tm_wday := (4 + (t + 32400) div 86400) mod 7,
                            tm_year := y - 1900, tm_yday := d, tm_mon := m,
                            tm_mday := d - mon_yday_row y ! nat m + 1,
                            tm_gmtoff := 32400, tm_zone := Some ''KST'', tm_isdst := 0\<rparr>),
                 errno))"
  unfolding fastkst_localtime_def kst_offset_def
  by (simp add: offtime64_eq[OF yl ms])

text \<open>With a record the run is defined: the month scan never reads outside its row.\<close>

lemma fastkst_localtime_defined:
  "\<exists>ret r' e. fastkst_localtime t (Some r) errno = Some (ret, Some r', e)"
proof -
  obtain y d m where yl: "year_loop (1970, (t + 32400) div 86400) = (y, d)"
    and ms: "mon_scan (mon_yday_row y) d 11 = Some m"
    using year_loop_total by blast
  show ?thesis unfolding fastkst_localtime_eq[OF yl ms] by simp
qed

text \<open>A run on a concrete input is settled by naming its year, day of the year and month.\<close>

lemma fastkst_localtime_success:
  assumes "\<not> year_guard (y, d)"
    and "d + days_before_year y = (t + 32400) div 86400"
    and "mon_scan (mon_yday_row y) d 11 = Some m"
    and "INT_MIN + 1900 \<le> y" "y \<le> INT_MAX + 1900"
  shows "fastkst_localtime t (Some r) errno =
      Some (1, Some (r\<lparr>tm_hour := (t + 32400) mod 86400 div 3600,
                            tm_min := (t + 32400) mod 86400 mod 3600 div 60,
                            tm_sec := (t + 32400) mod 86400 mod 60,
                            tm_wday := (4 + (t + 32400) div 86400) mod 7,
                            tm_year := y - 1900, tm_yday := d, tm_mon := m,
                            tm_mday := d - mon_yday_row y ! nat m + 1,
                            tm_gmtoff := 32400, tm_zone := Some ''KST'', tm_isdst := 0\<rparr>),
                 errno)"
proof -
  have "year_loop (1970, (t + 32400) div 86400) = (y, d)"
    by (rule year_loop_eqI) (use assms in \<open>simp_all add: days_before_year_def\<close>)
  from fastkst_localtime_eq[OF this assms(3)] assms(4,5) show ?thesis by simp
qed

lemma fastkst_localtime_overflow:
  assumes "\<not> year_guard (y, d)"
    and "d + days_before_year y = (t + 32400) div 86400"
    and "y < INT_MIN + 1900 \<or> y > INT_MAX + 1900"
  shows "fastkst_localtime t (Some r) errno =
      Some (0, Some (r\<lparr>tm_hour := (t + 32400) mod 86400 div 3600,
                            tm_min := (t + 32400) mod 86400 mod 3600 div 60,
                            tm_sec := (t + 32400) mod 86400 mod 60,
                            tm_wday := (4 + (t + 32400) div 86400) mod 7\<rparr>), EOVERFLOW)"
proof -
  have yl: "year_loop (1970, (t + 32400) div 86400) = (y, d)"
    by (rule year_loop_eqI) (use assms in \<open>simp_all add: days_before_year_def\<close>)
  from mon_scan_row[OF assms(1)] obtain m where "mon_scan (mon_yday_row y) d 11 = Some m"
    by blast
  from fastkst_localtime_eq[OF yl this] assms(3) show ?thesis by simp
qed

lemmas eval_simps = year_guard_def isleap_dvd days_before_year_closed LEAPS_floor
  mon_yday_row_cases mon_scan.simps INT_MIN_def INT_MAX_def

section \<open>The number of runs of the year resolver\<close>

lemma div_sandwich:
  fixes a k :: int
  assumes "0 < k"
  shows "k * (a div k) \<le> a" "a < k * (a div k) + k"
proof -
  have e: "k * (a div k) + a mod k = a" by simp
  have "0 \<le> a mod k" "a mod k < k" using assms by simp_all
  with e show "k * (a div k) \<le> a" "a < k * (a div k) + k" by linarith+
qed

lemma div4_diff:
  fixes u v :: int
  assumes "u \<le> v"
  shows "v div 4 - u div 4 \<le> v - u" "4 * (v div 4) - 4 * (u div 4) \<le> v - u + 3"
proof -
  define a where "a = v div 4"
  define b where "b = u div 4"
  have "4 * a \<le> v" "u < 4 * b + 4"
    unfolding a_def b_def using div_sandwich[of 4 v] div_sandwich[of 4 u] by simp_all
  then show 2: "4 * a - 4 * b \<le> v - u + 3" by linarith
  show "a - b \<le> v - u"
  proof (cases "u = v")
    case True
    then show ?thesis unfolding a_def b_def by simp
  next
    case False
    with assms have "u + 1 \<le> v" by simp
    with 2 show ?thesis by linarith
  qed
qed

text \<open>Among \<open>n\<close> consecutive years at most every fourth is a leap year.\<close>

lemma leaps_diff4:
  assumes "0 \<le> n"
  shows "4 * (LEAPS_THRU_END_OF (y + n) - LEAPS_THRU_END_OF y) \<le> n + 3"
proof -
  have le: "y \<le> y + n" using assms by simp
  have a4: "4 * ((y + n) div 4) - 4 * (y div 4) \<le> n + 3"
    using div4_diff(2)[OF le] by simp
  define u where "u = y div 100"
  define v where "v = (y + n) div 100"
  have uv: "u \<le> v" unfolding u_def v_def by (rule zdiv_mono1) (use assms in simp_all)
  have "y div 400 = u div 4" "(y + n) div 400 = v div 4"
    unfolding u_def v_def using zdiv_zmult2_eq[of 4 y 100] zdiv_zmult2_eq[of 4 "y + n" 100]
    by simp_all
  then have a400: "(y + n) div 400 - y div 400 \<le> (y + n) div 100 - y div 100"
    using div4_diff(1)[OF uv] unfolding u_def v_def by simp
  have "LEAPS_THRU_END_OF (y + n) - LEAPS_THRU_END_OF y
      = ((y + n) div 4 - y div 4) - ((y + n) div 100 - y div 100) + ((y + n) div 400 - y div 400)"
    unfolding LEAPS_floor by simp
  also have "\<dots> \<le> (y + n) div 4 - y div 4" using a400 by simp
  finally have "LEAPS_THRU_END_OF (y + n) - LEAPS_THRU_END_OF y \<le> (y + n) div 4 - y div 4" .
  then have "4 * (LEAPS_THRU_END_OF (y + n) - LEAPS_THRU_END_OF y) \<le> 4 * ((y + n) div 4) - 4 * (y div 4)"
    by simp
  from this a4 show ?thesis by (rule order_trans)
qed

lemma year_loop_iters_exit: "\<not> year_guard s \<Longrightarrow> year_loop_iters s = 0"
  by (subst year_loop_iters.simps) simp

lemma year_loop_iters_step:
  "year_guard s \<Longrightarrow> year_loop_iters s = Suc (year_loop_iters (year_body s))"
  by (subst year_loop_iters.simps) simp

text \<open>
  A run of the body from a day count at or past the end of the year either ends the loop
  or leaves a negative count about 1460 times smaller; from a count of less than two
  years it ends the loop.
\<close>

lemma year_body_pos:
  assumes g: "year_guard (y, d)" and d: "0 \<le> d" "d \<le> B" and b: "year_body (y, d) = (yg, d')"
  shows "\<not> year_guard (yg, d') \<or> (d' < 0 \<and> 1460 * (- d') \<le> B + 1095)"
    and "B \<le> 729 \<Longrightarrow> \<not> year_guard (yg, d')"
proof -
  define q where "q = d div 365"
  define r where "r = d mod 365"
  define l where "l = LEAPS_THRU_END_OF (y + q - 1) - LEAPS_THRU_END_OF (y - 1)"
  have yg: "yg = y + q" and d': "d' = r - l"
    using b unfolding year_body_floor q_def r_def l_def by auto
  have dq: "d = 365 * q + r" unfolding q_def r_def by simp
  have r: "0 \<le> r" "r < 365" unfolding r_def by simp_all
  have d365: "365 \<le> d" using g d(1) by (auto simp: year_guard_def split: if_splits)
  then have q: "1 \<le> q" using dq r by linarith
  then have q0: "0 \<le> q" by simp
  have l0: "0 \<le> l" using leaps_diff[OF q0, of "y - 1"] unfolding l_def by (simp add: algebra_simps)
  have l4: "4 * l \<le> q + 3" using leaps_diff4[OF q0, of "y - 1"] unfolding l_def by (simp add: algebra_simps)
  have small: "\<not> year_guard (yg, d')" if "0 \<le> d'"
  proof -
    have "d' < 365" using d' r l0 by linarith
    with that show ?thesis by (simp add: year_guard_def)
  qed
  show "\<not> year_guard (yg, d') \<or> (d' < 0 \<and> 1460 * (- d') \<le> B + 1095)"
  proof (cases "0 \<le> d'")
    case True
    with small show ?thesis by simp
  next
    case False
    have "1460 * (- d') \<le> B + 1095" using d' r l4 dq d(2) by linarith
    with False show ?thesis by simp
  qed
  show "\<not> year_guard (yg, d')" if "B \<le> 729"
  proof -
    have "q = 1" using that d(2) dq r q by linarith
    then have l: "l = (if isleap y then 1 else 0)"
      using leaps_step[of "y - 1"] unfolding l_def by simp
    have "(if isleap y then 366 else 365) \<le> d"
      using g d(1) by (auto simp: year_guard_def split: if_splits)
    then have "0 \<le> d'" unfolding d' l using dq \<open>q = 1\<close> by (simp split: if_splits)
    then show ?thesis by (rule small)
  qed
qed

lemma year_body_neg:
  assumes d: "d < 0" "- d \<le> B" and b: "year_body (y, d) = (yg, d')"
  shows "\<not> year_guard (yg, d') \<or> (365 \<le> d' \<and> 1460 * d' \<le> B + 532899)"
    and "B \<le> 365 \<Longrightarrow> \<not> year_guard (yg, d')"
proof -
  define q where "q = d div 365"
  define r where "r = d mod 365"
  define l where "l = LEAPS_THRU_END_OF (y - 1) - LEAPS_THRU_END_OF (y + q - 1)"
  have yg: "yg = y + q" and d': "d' = r + l"
    using b unfolding year_body_floor q_def r_def l_def by auto
  have dq: "d = 365 * q + r" unfolding q_def r_def by simp
  have r: "0 \<le> r" "r < 365" unfolding r_def by simp_all
  have q: "q \<le> - 1" using dq r d(1) by linarith
  then have q0: "0 \<le> - q" by simp
  have l0: "0 \<le> l" using leaps_diff[OF q0, of "y + q - 1"] unfolding l_def by (simp add: algebra_simps)
  have l4: "4 * l \<le> - q + 3" using leaps_diff4[OF q0, of "y + q - 1"] unfolding l_def by (simp add: algebra_simps)
  have nn: "0 \<le> d'" using d' r l0 by linarith
  show "\<not> year_guard (yg, d') \<or> (365 \<le> d' \<and> 1460 * d' \<le> B + 532899)"
  proof (cases "d' < 365")
    case True
    with nn show ?thesis by (simp add: year_guard_def)
  next
    case False
    have "1460 * d' \<le> B + 532899" using d' r l4 dq d(2) by linarith
    with False show ?thesis by simp
  qed
  show "\<not> year_guard (yg, d')" if "B \<le> 365"
  proof -
    have q1: "q = - 1" using that d(2) dq r q by linarith
    then have l: "l = (if isleap yg then 1 else 0)"
      using leaps_step[of "y - 2"] unfolding l_def yg by (simp add: algebra_simps)
    show ?thesis unfolding d' l using r by (simp add: year_guard_def)
  qed
qed


lemma iters_pos_lift:
  assumes ih: "\<And>y d. d < 0 \<Longrightarrow> - d \<le> Bn \<Longrightarrow> year_loop_iters (y, d) \<le> k"
    and d: "0 \<le> d" "d \<le> B" and B: "B + 1095 < 1460 * Bn + 1460"
  shows "year_loop_iters (y, d) \<le> Suc k"
proof (cases "year_guard (y, d)")
  case False
  then show ?thesis by (simp add: year_loop_iters_exit)
next
  case True
  obtain yg d' where b: "year_body (y, d) = (yg, d')" by (cases "year_body (y, d)")
  have s: "year_loop_iters (y, d) = Suc (year_loop_iters (yg, d'))"
    using year_loop_iters_step[OF True] b by simp
  from year_body_pos(1)[OF True d b] show ?thesis
  proof
    assume "\<not> year_guard (yg, d')"
    then show ?thesis unfolding s by (simp add: year_loop_iters_exit)
  next
    assume a: "d' < 0 \<and> 1460 * (- d') \<le> B + 1095"
    then have "- d' \<le> Bn" using B by linarith
    with a ih[of d' yg] show ?thesis unfolding s by simp
  qed
qed

lemma iters_neg_lift:
  assumes ih: "\<And>y d. 0 \<le> d \<Longrightarrow> d \<le> Bp \<Longrightarrow> year_loop_iters (y, d) \<le> k"
    and d: "d < 0" "- d \<le> B" and B: "B + 532899 < 1460 * Bp + 1460"
  shows "year_loop_iters (y, d) \<le> Suc k"
proof -
  have g: "year_guard (y, d)" using d(1) by (simp add: year_guard_def)
  obtain yg d' where b: "year_body (y, d) = (yg, d')" by (cases "year_body (y, d)")
  have s: "year_loop_iters (y, d) = Suc (year_loop_iters (yg, d'))"
    using year_loop_iters_step[OF g] b by simp
  from year_body_neg(1)[OF d b] show ?thesis
  proof
    assume "\<not> year_guard (yg, d')"
    then show ?thesis unfolding s by (simp add: year_loop_iters_exit)
  next
    assume a: "365 \<le> d' \<and> 1460 * d' \<le> B + 532899"
    then have "d' \<le> Bp" using B by linarith
    with a ih[of d' yg] show ?thesis unfolding s by simp
  qed
qed

lemma iters_pos_1: "0 \<le> d \<Longrightarrow> d \<le> 729 \<Longrightarrow> year_loop_iters (y, d) \<le> 1"
proof (cases "year_guard (y, d)")
  case False
  then show ?thesis by (simp add: year_loop_iters_exit)
next
  case True
  assume d: "0 \<le> d" "d \<le> 729"
  obtain yg d' where b: "year_body (y, d) = (yg, d')" by (cases "year_body (y, d)")
  have "\<not> year_guard (yg, d')" by (rule year_body_pos(2)[OF True d b]) simp
  then show ?thesis
    using year_loop_iters_step[OF True] b by (simp add: year_loop_iters_exit)
qed

lemma iters_neg_1: "d < 0 \<Longrightarrow> - d \<le> 365 \<Longrightarrow> year_loop_iters (y, d) \<le> 1"
proof -
  assume d: "d < 0" "- d \<le> 365"
  have g: "year_guard (y, d)" using d(1) by (simp add: year_guard_def)
  obtain yg d' where b: "year_body (y, d) = (yg, d')" by (cases "year_body (y, d)")
  have "\<not> year_guard (yg, d')" by (rule year_body_neg(2)[OF d b]) simp
  then show ?thesis
    using year_loop_iters_step[OF g] b by (simp add: year_loop_iters_exit)
qed

lemma iters_neg_2: "d < 0 \<Longrightarrow> - d \<le> 532900 \<Longrightarrow> year_loop_iters (y, d) \<le> 2"
  using iters_neg_lift[of 729 1 d 532900 y] iters_pos_1 by (simp add: numeral_2_eq_2)

lemma iters_pos_2: "0 \<le> d \<Longrightarrow> d \<le> 533000 \<Longrightarrow> year_loop_iters (y, d) \<le> 2"
  using iters_pos_lift[of 365 1 d 533000 y] iters_neg_1 by (simp add: numeral_2_eq_2)

lemma iters_pos_3: "0 \<le> d \<Longrightarrow> d \<le> 778000000 \<Longrightarrow> year_loop_iters (y, d) \<le> 3"
  using iters_pos_lift[of 532900 2 d 778000000 y] iters_neg_2 by (simp add: numeral_3_eq_3)

lemma iters_neg_3: "d < 0 \<Longrightarrow> - d \<le> 777000000 \<Longrightarrow> year_loop_iters (y, d) \<le> 3"
  using iters_neg_lift[of 533000 2 d 777000000 y] iters_pos_2 by (simp add: numeral_3_eq_3)

lemma iters_neg_4: "d < 0 \<Longrightarrow> - d \<le> 1135000000000 \<Longrightarrow> year_loop_iters (y, d) \<le> 4"
  using iters_neg_lift[of 778000000 3 d 1135000000000 y] iters_pos_3 by simp

lemma iters_pos_4: "0 \<le> d \<Longrightarrow> d \<le> 1134000000000 \<Longrightarrow> year_loop_iters (y, d) \<le> 4"
  using iters_pos_lift[of 777000000 3 d 1134000000000 y] iters_neg_3 by simp

lemma iters_pos_5: "0 \<le> d \<Longrightarrow> d \<le> 106751991167302 \<Longrightarrow> year_loop_iters (y, d) \<le> 5"
  using iters_pos_lift[of 1135000000000 4 d 106751991167302 y] iters_neg_4 by simp

lemma iters_neg_5: "d < 0 \<Longrightarrow> - d \<le> 106751991167302 \<Longrightarrow> year_loop_iters (y, d) \<le> 5"
  using iters_neg_lift[of 1134000000000 4 d 106751991167302 y] iters_pos_4 by simp

lemma year_loop_iters_le_5:
  assumes "- 106751991167302 \<le> D" "D \<le> 106751991167302"
  shows "year_loop_iters (y, D) \<le> 5"
proof (cases "0 \<le> D")
  case True
  with assms show ?thesis by (simp add: iters_pos_5)
next
  case False
  with assms show ?thesis by (simp add: iters_neg_5)
qed

text \<open>The day counts a 64-bit \<open>time_t\<close> and an offset of less than a day reach.\<close>

lemma day_range:
  assumes "in_int64 t" "- 86400 < offset" "offset < 86400"
  shows "- 106751991167302 \<le> (t + offset) div 86400" "(t + offset) div 86400 \<le> 106751991167302"
proof -
  have lo: "- 9223372036854862207 \<le> t + offset" and hi: "t + offset \<le> 9223372036854862206"
    using assms unfolding in_int64_def by linarith+
  have "(- 9223372036854862207) div 86400 \<le> (t + offset) div 86400"
    by (rule zdiv_mono1) (use lo in simp_all)
  then show "- 106751991167302 \<le> (t + offset) div 86400" by simp
  have "(t + offset) div 86400 \<le> 9223372036854862206 div 86400"
    by (rule zdiv_mono1) (use hi in simp_all)
  then show "(t + offset) div 86400 \<le> 106751991167302" by simp
qed

section \<open>No intermediate overflow\<close>

lemma mag_add: "mag M a \<Longrightarrow> mag N b \<Longrightarrow> mag (M + N) (a + b)"
  and mag_diff: "mag M a \<Longrightarrow> mag N b \<Longrightarrow> mag (M + N) (a - b)"
  and mag_one: "mag 1 1"
  and mag_flag: "mag 1 (if c then 1 else 0)"
  and mag_times_365: "mag M a \<Longrightarrow> mag (365 * M) (a * 365)"
  by (simp_all add: mag_def)

lemma mag_div:
  assumes b: "0 < b" and a: "mag M a"
  shows "mag (M + 1) (a div b)" "0 \<le> a \<Longrightarrow> mag M (a div b)"
proof -
  define q where "q = a div b"
  define p where "p = b * q"
  have s: "p \<le> a" "a < p + b" unfolding p_def q_def using div_sandwich[OF b, of a] by simp_all
  have k1: "q \<le> p" if "0 \<le> q" unfolding p_def using mult_right_mono[of 1 b q] that b by simp
  have k2: "p + b \<le> q + 1" if "q + 1 \<le> 0"
    using mult_right_mono_neg[of 1 b "q + 1"] that b unfolding p_def by (simp add: algebra_simps)
  have M: "- M \<le> a" "a \<le> M" using a by (simp_all add: mag_def)
  have up: "q \<le> M"
  proof (cases "0 \<le> q")
    case True
    from k1[OF True] s(1) M(2) show ?thesis by linarith
  next
    case False
    then show ?thesis using M by linarith
  qed
  have lo: "- M - 1 \<le> q"
  proof (cases "q + 1 \<le> 0")
    case True
    from k2[OF True] s(2) M(1) show ?thesis by linarith
  next
    case False
    then show ?thesis using M by linarith
  qed
  from up lo show "mag (M + 1) (a div b)" unfolding q_def by (simp add: mag_def)
  show "mag M (a div b)" if "0 \<le> a"
  proof -
    have "0 \<le> q" unfolding q_def using that b by (simp add: pos_imp_zdiv_nonneg_iff)
    with up M show ?thesis unfolding q_def by (simp add: mag_def)
  qed
qed

lemma mag_sdiv: "0 < b \<Longrightarrow> mag M a \<Longrightarrow> mag (M + 1 + 1) (a sdiv b)"
  unfolding sdiv_pos using mag_div(1)[of b M a] by (auto simp: mag_def)

lemma mag_smod: "0 < b \<Longrightarrow> mag b (a smod b)"
  using smod_range[of b a] by (simp add: mag_def)

lemma mag_DIV: "0 < b \<Longrightarrow> mag M a \<Longrightarrow> mag (M + 1 + 1 + 1) (DIV a b)"
  unfolding DIV_def by (rule mag_diff mag_sdiv mag_flag | assumption)+

lemma mag_LEAPS:
  "mag M a \<Longrightarrow> mag (M + 1 + 1 + 1 + (M + 1 + 1 + 1) + (M + 1 + 1 + 1)) (LEAPS_THRU_END_OF a)"
  unfolding LEAPS_THRU_END_OF_def by (rule mag_add mag_diff mag_DIV | assumption | simp)+

lemmas mag_intros = mag_add mag_diff mag_one mag_flag mag_times_365 mag_sdiv mag_smod mag_DIV
  mag_LEAPS

lemma in_int64_mag: "mag M v \<Longrightarrow> M \<le> 9223372036854775807 \<Longrightarrow> in_int64 v"
  by (simp add: mag_def in_int64_def)

text \<open>
  The values one run of the body computes from a year within \<open>10^12\<close> of zero and a
  day count the splitter can leave.
\<close>


lemma year_body_values_in_int64:
  assumes y: "mag 1000000000000 y" and d: "mag 106751991167302 d"
  shows "list_all in_int64 (year_body_values (y, d))"
proof -
  have nil: "list_all in_int64 [] = True" by simp
  show ?thesis
    unfolding year_body_values_def LEAPS_values_def DIV_values_def Let_def prod.case
      list_all_append list.pred_inject nil simp_thms
    by (intro conjI; (rule in_int64_mag, (rule mag_intros y d | simp)+))
qed


text \<open>The states at the head of the loop: they stand for the day the loop started from.\<close>

lemma year_reach_loop: "year_reach D s \<Longrightarrow> year_loop s = year_loop (1970, D)"
proof (induction rule: year_reach.induct)
  case start
  show ?case ..
next
  case (step s)
  have "year_loop s = year_loop (year_body s)"
    using step.hyps(2) by (subst year_loop.simps) simp
  with step.IH show ?case by simp
qed

lemma year_reach_inv:
  assumes "year_reach D s" "mag 106751991167302 D"
  shows "snd s + days_before_year (fst s) = D \<and> mag 106751991167302 (snd s)"
  using assms(1)
proof (induction rule: year_reach.induct)
  case start
  show ?case using assms(2) by (simp add: days_before_year_def)
next
  case (step s)
  obtain y d where s: "s = (y, d)" by (cases s)
  obtain yg d' where b: "year_body (y, d) = (yg, d')" by (cases "year_body (y, d)")
  have g: "year_guard (y, d)" using step.hyps(2) s by simp
  have d: "- 106751991167302 \<le> d" "d \<le> 106751991167302"
    using step.IH s by (simp_all add: mag_def)
  have day: "d' + days_before_year yg = D"
    using year_body_day[OF b] step.IH s by simp
  have small: "mag 106751991167302 d'" if "\<not> year_guard (yg, d')"
    using that by (auto simp: year_guard_def mag_def split: if_splits)
  have "mag 106751991167302 d'"
  proof (cases "0 \<le> d")
    case True
    from year_body_pos(1)[OF g True d(2) b] show ?thesis
    proof
      assume "\<not> year_guard (yg, d')"
      then show ?thesis by (rule small)
    next
      assume "d' < 0 \<and> 1460 * (- d') \<le> 106751991167302 + 1095"
      then show ?thesis by (simp add: mag_def)
    qed
  next
    case False
    then have n: "d < 0" "- d \<le> 106751991167302" using d(1) by simp_all
    from year_body_neg(1)[OF n b] show ?thesis
    proof
      assume "\<not> year_guard (yg, d')"
      then show ?thesis by (rule small)
    next
      assume "365 \<le> d' \<and> 1460 * d' \<le> 106751991167302 + 532899"
      then show ?thesis by (simp add: mag_def)
    qed
  qed
  with day show ?case unfolding s b by simp
qed

lemma year_reach_year:
  assumes "year_reach D (y, d)" "mag 106751991167302 D"
  shows "mag 1000000000000 y"
proof -
  from year_reach_inv[OF assms] have day: "d + days_before_year y = D"
    and d: "- 106751991167302 \<le> d" "d \<le> 106751991167302"
    by (simp_all add: mag_def)
  have D: "- 106751991167302 \<le> D" "D \<le> 106751991167302"
    using assms(2) by (simp_all add: mag_def)
  have z: "days_before_year 1970 = 0" by (simp add: days_before_year_def)
  show ?thesis
  proof (cases "1970 \<le> y")
    case True
    from days_before_year_mono[OF True] have "365 * y - 365 * 1970 \<le> days_before_year y"
      unfolding z by (simp add: algebra_simps)
    with day d D True show ?thesis by (simp add: mag_def)
  next
    case False
    then have le: "y \<le> 1970" by simp
    from days_before_year_mono[OF this] have "days_before_year y \<le> 365 * y - 365 * 1970"
      unfolding z by (simp add: algebra_simps)
    with day d D le show ?thesis by (simp add: mag_def)
  qed
qed

text \<open>
  For a 64-bit \<open>t\<close> and an offset of less than a day, every value a run of the body of
  the year resolver computes, at any state the loop reaches, is in the 64-bit range; so
  are the values the splitter starts from.
\<close>

lemma year_loop_no_overflow:
  assumes "in_int64 t" "- 86400 < offset" "offset < 86400"
    and "year_reach ((t + offset) div 86400) s"
  shows "list_all in_int64 (year_body_values s)"
proof -
  obtain y d where s: "s = (y, d)" by (cases s)
  have D: "mag 106751991167302 ((t + offset) div 86400)"
    using day_range[OF assms(1,2,3)] by (simp add: mag_def)
  have "mag 1000000000000 y" "mag 106751991167302 d"
    using year_reach_year[OF assms(4)[unfolded s] D] year_reach_inv[OF assms(4) D] s by simp_all
  then show ?thesis unfolding s by (rule year_body_values_in_int64)
qed

lemma splitter_no_overflow:
  assumes "in_int64 t" "- 86400 < offset" "offset < 86400"
  shows "in_int64 (t sdiv SECS_PER_DAY)" "in_int64 (t smod SECS_PER_DAY)"
    "in_int64 (t smod SECS_PER_DAY + offset)" "in_int64 (4 + (t + offset) div 86400)"
proof -
  have t: "mag 9223372036854775808 t" using assms(1) by (simp add: in_int64_def mag_def)
  have q: "t sdiv 86400 = (if t < 0 \<and> t mod 86400 \<noteq> 0 then t div 86400 + 1 else t div 86400)"
    by (simp add: sdiv_pos)
  have lo: "(- 9223372036854775808) div 86400 \<le> t div 86400"
    by (rule zdiv_mono1) (use assms(1) in \<open>simp_all add: in_int64_def\<close>)
  have hi: "t div 86400 \<le> 9223372036854775807 div 86400"
    by (rule zdiv_mono1) (use assms(1) in \<open>simp_all add: in_int64_def\<close>)
  show "in_int64 (t sdiv SECS_PER_DAY)"
    unfolding SPD q using lo hi by (simp add: in_int64_def)
  have r: "- 86400 < t smod 86400" "t smod 86400 < 86400" using smod_range[of 86400 t] by simp_all
  then show "in_int64 (t smod SECS_PER_DAY)" "in_int64 (t smod SECS_PER_DAY + offset)"
    unfolding SPD using assms(2,3) by (simp_all add: in_int64_def)
  show "in_int64 (4 + (t + offset) div 86400)"
    using day_range[OF assms] by (simp add: in_int64_def)
qed

section \<open>The civil times of the calendar\<close>

lemma mon_yday_row_next:
  assumes "0 \<le> m" "m \<le> 11"
  shows "mon_yday_row y ! nat (m + 1)
           = mon_yday_row y ! nat m + days_in_month (gregorian_leap y) (nat m)"
proof -
  have n: "nat (m + 1) = Suc (nat m)" using assms(1) by simp
  have "mon_yday_row y ! nat (m + 1)
      = sum_list (map (days_in_month (gregorian_leap y)) [0..<nat (m + 1)])"
    by (rule mon_yday_row_months) (use assms in simp_all)
  also have "\<dots> = sum_list (map (days_in_month (gregorian_leap y)) [0..<nat m])
      + days_in_month (gregorian_leap y) (nat m)"
    unfolding n by simp
  also have "sum_list (map (days_in_month (gregorian_leap y)) [0..<nat m]) = mon_yday_row y ! nat m"
    by (rule mon_yday_row_months [symmetric]) (use assms in simp_all)
  finally show ?thesis .
qed


text \<open>
  The recombination is one-to-one on records that hold a civil time: the year, month,
  day, hour, minute and second of such a record are determined by its epoch-seconds.
\<close>

lemma mon_yday_row_sorted: "sorted (mon_yday_row y)"
  by (simp add: mon_yday_row_cases)

lemma mon_yday_row_mono:
  assumes "0 \<le> i" "i \<le> j" "j \<le> 12"
  shows "mon_yday_row y ! nat i \<le> mon_yday_row y ! nat j"
  by (rule sorted_nth_mono[OF mon_yday_row_sorted]) (use assms in \<open>simp_all add: mon_yday_row_ends\<close>)

lemma time_of_day_unique:
  fixes h h' m m' s s' :: int
  assumes "h * 3600 + m * 60 + s = h' * 3600 + m' * 60 + s'"
    and "0 \<le> m" "m \<le> 59" "0 \<le> s" "s \<le> 59" "0 \<le> m'" "m' \<le> 59" "0 \<le> s'" "s' \<le> 59"
  shows "h = h' \<and> m = m' \<and> s = s'"
proof -
  have h: "h = h'"
  proof (rule ccontr)
    assume "h \<noteq> h'"
    then consider "h + 1 \<le> h'" | "h' + 1 \<le> h" by linarith
    then show False using assms by cases linarith+
  qed
  have m: "m = m'"
  proof (rule ccontr)
    assume "m \<noteq> m'"
    then consider "m + 1 \<le> m'" | "m' + 1 \<le> m" by linarith
    then show False using assms h by cases linarith+
  qed
  from assms(1) h m show ?thesis by simp
qed

lemma day_of_year_range:
  assumes "0 \<le> m" "m \<le> 11" "1 \<le> d" "d \<le> days_in_month (gregorian_leap y) (nat m)"
  shows "\<not> year_guard (y, mon_yday_row y ! nat m + (d - 1))"
    and "mon_yday_row y ! nat m \<le> mon_yday_row y ! nat m + (d - 1)"
    and "mon_yday_row y ! nat m + (d - 1) < mon_yday_row y ! nat (m + 1)"
proof -
  have z: "0 \<le> mon_yday_row y ! nat m"
    using mon_yday_row_mono[of 0 m y] assms(1,2) by (simp add: mon_yday_row_ends)
  have e12: "mon_yday_row y ! nat 12 = (if isleap y then 366 else 365)"
    by (rule mon_yday_row_ends)
  have "mon_yday_row y ! nat (m + 1) \<le> mon_yday_row y ! nat 12"
    by (rule mon_yday_row_mono) (use assms(1,2) in simp_all)
  then have n: "mon_yday_row y ! nat (m + 1) \<le> (if isleap y then 366 else 365)"
    unfolding e12 .
  show up: "mon_yday_row y ! nat m + (d - 1) < mon_yday_row y ! nat (m + 1)"
    unfolding mon_yday_row_next[OF assms(1,2)] using assms(4) by simp
  show "mon_yday_row y ! nat m \<le> mon_yday_row y ! nat m + (d - 1)" using assms(3) by simp
  show "\<not> year_guard (y, mon_yday_row y ! nat m + (d - 1))"
    using z n up assms(3) by (auto simp: year_guard_def split: if_splits)
qed

lemma civil_time_unique:
  assumes a: "valid_civil a" and b: "valid_civil b"
    and e: "epoch_seconds a offset = epoch_seconds b offset"
  shows "tm_year a = tm_year b \<and> tm_mon a = tm_mon b \<and> tm_mday a = tm_mday b
     \<and> tm_hour a = tm_hour b \<and> tm_min a = tm_min b \<and> tm_sec a = tm_sec b"
proof -
  define Ta where "Ta = tm_hour a * 3600 + tm_min a * 60 + tm_sec a"
  define Tb where "Tb = tm_hour b * 3600 + tm_min b * 60 + tm_sec b"
  define Da where "Da = days_from_civil (tm_year a + 1900) (tm_mon a) (tm_mday a)"
  define Db where "Db = days_from_civil (tm_year b + 1900) (tm_mon b) (tm_mday b)"
  have va: "0 \<le> tm_mon a" "tm_mon a \<le> 11" "1 \<le> tm_mday a"
    "tm_mday a \<le> days_in_month (gregorian_leap (tm_year a + 1900)) (nat (tm_mon a))"
    "0 \<le> tm_hour a" "tm_hour a \<le> 23" "0 \<le> tm_min a" "tm_min a \<le> 59"
    "0 \<le> tm_sec a" "tm_sec a \<le> 59"
    using a by (simp_all add: valid_civil_def)
  have vb: "0 \<le> tm_mon b" "tm_mon b \<le> 11" "1 \<le> tm_mday b"
    "tm_mday b \<le> days_in_month (gregorian_leap (tm_year b + 1900)) (nat (tm_mon b))"
    "0 \<le> tm_hour b" "tm_hour b \<le> 23" "0 \<le> tm_min b" "tm_min b \<le> 59"
    "0 \<le> tm_sec b" "tm_sec b \<le> 59"
    using b by (simp_all add: valid_civil_def)
  have Ta: "0 \<le> Ta" "Ta \<le> 86399" unfolding Ta_def using va by linarith+
  have Tb: "0 \<le> Tb" "Tb \<le> 86399" unfolding Tb_def using vb by linarith+
  have sum: "Da * 86400 + Ta = Db * 86400 + Tb"
    using e unfolding epoch_seconds_def Ta_def Tb_def Da_def Db_def by simp
  have D: "Da = Db"
  proof (rule ccontr)
    assume "Da \<noteq> Db"
    then consider "Da + 1 \<le> Db" | "Db + 1 \<le> Da" by linarith
    then show False using sum Ta Tb by cases linarith+
  qed
  with sum have "Ta = Tb" by simp
  then have tod: "tm_hour a = tm_hour b \<and> tm_min a = tm_min b \<and> tm_sec a = tm_sec b"
    unfolding Ta_def Tb_def
    by (rule time_of_day_unique) (use va vb in simp_all)
  define ya where "ya = tm_year a + 1900"
  define yb where "yb = tm_year b + 1900"
  define da where "da = mon_yday_row ya ! nat (tm_mon a) + (tm_mday a - 1)"
  define db where "db = mon_yday_row yb ! nat (tm_mon b) + (tm_mday b - 1)"
  have Da': "Da = da + days_before_year ya"
    unfolding Da_def da_def ya_def days_from_civil_def
    using mon_yday_row_months[of "tm_mon a" "tm_year a + 1900"] va(1,2) by simp
  have Db': "Db = db + days_before_year yb"
    unfolding Db_def db_def yb_def days_from_civil_def
    using mon_yday_row_months[of "tm_mon b" "tm_year b + 1900"] vb(1,2) by simp
  have ra: "\<not> year_guard (ya, da)" "mon_yday_row ya ! nat (tm_mon a) \<le> da"
    "da < mon_yday_row ya ! nat (tm_mon a + 1)"
    unfolding da_def ya_def using day_of_year_range[OF va(1,2,3,4)] by simp_all
  have rb: "\<not> year_guard (yb, db)" "mon_yday_row yb ! nat (tm_mon b) \<le> db"
    "db < mon_yday_row yb ! nat (tm_mon b + 1)"
    unfolding db_def yb_def using day_of_year_range[OF vb(1,2,3,4)] by simp_all
  from year_unique[OF ra(1) rb(1)] D have y: "ya = yb" and d: "da = db"
    unfolding Da' Db' by simp_all
  have mon: "tm_mon a = tm_mon b"
  proof (rule ccontr)
    assume "tm_mon a \<noteq> tm_mon b"
    then consider "tm_mon a + 1 \<le> tm_mon b" | "tm_mon b + 1 \<le> tm_mon a" by linarith
    then show False
    proof cases
      case 1
      from mon_yday_row_mono[of "tm_mon a + 1" "tm_mon b" yb] 1 va(1) vb(2)
      have "mon_yday_row yb ! nat (tm_mon a + 1) \<le> mon_yday_row yb ! nat (tm_mon b)" by simp
      with ra(3) rb(2) show False unfolding y d by linarith
    next
      case 2
      from mon_yday_row_mono[of "tm_mon b + 1" "tm_mon a" yb] 2 vb(1) va(2)
      have "mon_yday_row yb ! nat (tm_mon b + 1) \<le> mon_yday_row yb ! nat (tm_mon a)" by simp
      with rb(3) ra(2) show False unfolding y d by linarith
    qed
  qed
  have "tm_mday a = tm_mday b"
    using d unfolding da_def db_def y mon by simp
  with y mon tod show ?thesis unfolding ya_def yb_def by simp
qed

section \<open>The claims\<close>

text \<open>
  C7. \<open>fastkst_localtime\<close> applied to \<open>t = -2209021200\<close> succeeds (returns 1) and
  produces 1900-01-01 00:00:00 at +09:00: \<open>tm_year = 0\<close>, \<open>tm_mon = 0\<close>,
  \<open>tm_mday = 1\<close>, \<open>tm_hour = 0\<close>, \<open>tm_min = 0\<close>, \<open>tm_sec = 0\<close> (a Monday, day 0 of
  the year), whatever the record and \<open>errno\<close> held before.
\<close>

theorem fastkst_localtime_1900:
  "fastkst_localtime (- 2209021200) (Some r) errno =
     Some (1, Some (r\<lparr>tm_hour := 0, tm_min := 0, tm_sec := 0, tm_wday := 1, tm_year := 0,
                       tm_yday := 0, tm_mon := 0, tm_mday := 1, tm_gmtoff := 32400,
                       tm_zone := Some ''KST'', tm_isdst := 0\<rparr>), errno)"
  using fastkst_localtime_success[of 1900 0 "- 2209021200" 0 r errno]
  by (simp add: eval_simps)

theorem fastkst_localtime_1900_witness:
  "fastkst_localtime (- 2209021200) (Some tm_zeroed) 0 =
     Some (1, Some \<lparr>tm_sec = 0, tm_min = 0, tm_hour = 0, tm_mday = 1, tm_mon = 0, tm_year = 0,
                    tm_wday = 1, tm_yday = 0, tm_isdst = 0, tm_gmtoff = 32400,
                    tm_zone = Some ''KST''\<rparr>, 0)"
  using fastkst_localtime_1900[of tm_zeroed 0] by (simp add: tm_zeroed_def)

text \<open>
  C2, as the code has it. \<open>fastkst_localtime\<close> applied to \<open>t = 2147483647\<close> and to
  \<open>t = 2147483648\<close> succeeds (returns 1) on both, and the two records differ in
  \<open>tm_sec\<close> only, by one second: they are 2038-01-19 12:14:07 and 2038-01-19 12:14:08
  at +09:00 (\<open>tm_year = 138\<close>, \<open>tm_mon = 0\<close>, \<open>tm_mday = 19\<close>, \<open>tm_hour = 12\<close>,
  \<open>tm_min = 14\<close>, \<open>tm_sec = 7\<close> and \<open>8\<close>). The hour is 12, not 3: 03:14:07 is the UTC
  time of \<open>t = 2147483647\<close>, and the function adds nine hours to it.
\<close>

theorem fastkst_localtime_2038:
  "fastkst_localtime 2147483647 (Some r) errno =
     Some (1, Some (r\<lparr>tm_hour := 12, tm_min := 14, tm_sec := 7, tm_wday := 2, tm_year := 138,
                       tm_yday := 18, tm_mon := 0, tm_mday := 19, tm_gmtoff := 32400,
                       tm_zone := Some ''KST'', tm_isdst := 0\<rparr>), errno)
   \<and> fastkst_localtime 2147483648 (Some r) errno =
     Some (1, Some (r\<lparr>tm_hour := 12, tm_min := 14, tm_sec := 8, tm_wday := 2, tm_year := 138,
                       tm_yday := 18, tm_mon := 0, tm_mday := 19, tm_gmtoff := 32400,
                       tm_zone := Some ''KST'', tm_isdst := 0\<rparr>), errno)"
  using fastkst_localtime_success[of 2038 18 2147483647 0 r errno]
    fastkst_localtime_success[of 2038 18 2147483648 0 r errno]
  by (simp add: eval_simps)

theorem fastkst_localtime_2038_witness:
  "fastkst_localtime 2147483647 (Some tm_zeroed) 0 =
     Some (1, Some \<lparr>tm_sec = 7, tm_min = 14, tm_hour = 12, tm_mday = 19, tm_mon = 0,
                    tm_year = 138, tm_wday = 2, tm_yday = 18, tm_isdst = 0, tm_gmtoff = 32400,
                    tm_zone = Some ''KST''\<rparr>, 0)
   \<and> fastkst_localtime 2147483648 (Some tm_zeroed) 0 =
     Some (1, Some \<lparr>tm_sec = 8, tm_min = 14, tm_hour = 12, tm_mday = 19, tm_mon = 0,
                    tm_year = 138, tm_wday = 2, tm_yday = 18, tm_isdst = 0, tm_gmtoff = 32400,
                    tm_zone = Some ''KST''\<rparr>, 0)"
  using fastkst_localtime_2038[of tm_zeroed 0] by (simp add: tm_zeroed_def)

text \<open>
  The claim C2 as stated fails: on \<open>t = 2147483647\<close> and a zeroed record the function
  returns 1 with \<open>tm_hour = 12\<close>, so the local time it produces is not 03:14:07.
\<close>

theorem fastkst_localtime_2038_counterexample:
  "fastkst_localtime 2147483647 (Some tm_zeroed) 0 =
     Some (1, Some \<lparr>tm_sec = 7, tm_min = 14, tm_hour = 12, tm_mday = 19, tm_mon = 0,
                    tm_year = 138, tm_wday = 2, tm_yday = 18, tm_isdst = 0, tm_gmtoff = 32400,
                    tm_zone = Some ''KST''\<rparr>, 0)
   \<and> tm_hour \<lparr>tm_sec = 7, tm_min = 14, tm_hour = 12, tm_mday = 19, tm_mon = 0,
                tm_year = 138, tm_wday = 2, tm_yday = 18, tm_isdst = 0, tm_gmtoff = 32400,
                tm_zone = Some ''KST''\<rparr> \<noteq> 3"
  using fastkst_localtime_success[of 2038 18 2147483647 0 tm_zeroed 0]
  by (simp add: eval_simps tm_zeroed_def)

text \<open>
  C8. For every \<open>t\<close>, \<open>fastkst_localtime\<close> with a \<open>NULL\<close> record returns 0 and sets
  \<open>errno\<close> to \<open>EINVAL\<close>; \<open>fastkst_localtime_safe\<close> with a \<open>NULL\<close> record returns 0 and
  stores \<open>EINVAL\<close> through \<open>err_code\<close> when that is not \<open>NULL\<close> (and leaves \<open>errno\<close> as
  it was). Both runs are defined, and no record is written: the record pointer is still
  \<open>NULL\<close>, and a \<open>NULL\<close> \<open>err_code\<close> stays \<open>NULL\<close>.
\<close>

theorem null_record_invalid:
  "fastkst_localtime t None errno = Some (0, None, EINVAL)
   \<and> fastkst_localtime_safe t None (Some c) errno = Some (0, None, Some EINVAL, errno)
   \<and> fastkst_localtime_safe t None None errno = Some (0, None, None, errno)"
  by (simp add: fastkst_localtime_def fastkst_localtime_safe_def)

theorem null_record_invalid_witness:
  "fastkst_localtime 0 None 0 = Some (0, None, 22)
   \<and> fastkst_localtime_safe 0 None (Some 0) 0 = Some (0, None, Some 22, 0)
   \<and> fastkst_localtime_safe 0 None None 0 = Some (0, None, None, 0)"
  using null_record_invalid[of 0 0 0] by (simp add: EINVAL_def)

text \<open>
  C6. For every 64-bit \<open>t\<close> and every offset of magnitude less than one day, the pair
  \<open>(rem, days)\<close> the two renormalisation loops leave satisfies \<open>0 \<le> rem < 86400\<close> and
  \<open>days * 86400 + rem = t + offset\<close>; the body of each loop runs at most twice; and
  \<open>__offtime64\<close> stores \<open>rem / 3600\<close>, \<open>(rem % 3600) / 60\<close> and \<open>rem % 60\<close> (C's
  operators) in \<open>tm_hour\<close>, \<open>tm_min\<close> and \<open>tm_sec\<close>.
\<close>

theorem day_time_splitter:
  assumes "in_int64 t" "- 86400 < offset" "offset < 86400"
    and "loop_pos (loop_neg (t smod SECS_PER_DAY + offset, t sdiv SECS_PER_DAY)) = (rem, days)"
  shows "0 \<le> rem \<and> rem < SECS_PER_DAY \<and> days * SECS_PER_DAY + rem = t + offset
     \<and> loop_neg_iters (t smod SECS_PER_DAY + offset, t sdiv SECS_PER_DAY) \<le> 2
     \<and> loop_pos_iters (loop_neg (t smod SECS_PER_DAY + offset, t sdiv SECS_PER_DAY)) \<le> 2
     \<and> (\<exists>ret r' e. offtime64 t offset (Some r) errno = Some (ret, Some r', e)
           \<and> tm_hour r' = rem sdiv 3600 \<and> tm_min r' = (rem smod 3600) sdiv 60
           \<and> tm_sec r' = rem smod 60)"
proof -
  have rd: "rem = (t + offset) mod 86400" "days = (t + offset) div 86400"
    using assms(4) unfolding split_eq by simp_all
  have rem: "0 \<le> rem" "rem < 86400" unfolding rd by simp_all
  have sum: "days * 86400 + rem = t + offset" unfolding rd by simp
  have m: "0 \<le> rem mod 3600" by simp
  have c: "rem sdiv 3600 = rem div 3600" "(rem smod 3600) sdiv 60 = rem mod 3600 div 60"
    "rem smod 60 = rem mod 60"
    using rem(1) m by (simp_all add: sdiv_nonneg smod_nonneg)
  obtain y d m where yl: "year_loop (1970, (t + offset) div 86400) = (y, d)"
    and ms: "mon_scan (mon_yday_row y) d 11 = Some m"
    using year_loop_total by blast
  have "\<exists>ret r' e. offtime64 t offset (Some r) errno = Some (ret, Some r', e)
           \<and> tm_hour r' = rem div 3600 \<and> tm_min r' = rem mod 3600 div 60
           \<and> tm_sec r' = rem mod 60"
    unfolding offtime64_eq[OF yl ms] rd by simp
  then show ?thesis
    using rem sum split_iters[OF assms(2,3), of t] unfolding c by (simp add: SPD)
qed

theorem day_time_splitter_witness:
  "in_int64 (- 40000)
   \<and> loop_pos (loop_neg ((- 40000) smod SECS_PER_DAY + 32400, (- 40000) sdiv SECS_PER_DAY))
       = (78800, - 1)
   \<and> loop_neg_iters ((- 40000) smod SECS_PER_DAY + 32400, (- 40000) sdiv SECS_PER_DAY) \<le> 2
   \<and> loop_pos_iters (loop_neg ((- 40000) smod SECS_PER_DAY + 32400, (- 40000) sdiv SECS_PER_DAY)) \<le> 2
   \<and> (\<exists>ret r' e. offtime64 (- 40000) 32400 (Some tm_zeroed) 0 = Some (ret, Some r', e)
           \<and> tm_hour r' = 21 \<and> tm_min r' = 53 \<and> tm_sec r' = 20)"
proof -
  have s: "loop_pos (loop_neg ((- 40000) smod SECS_PER_DAY + 32400, (- 40000) sdiv SECS_PER_DAY))
       = (78800, - 1)"
    unfolding split_eq by simp
  have "(78800::int) sdiv 3600 = 21" "((78800::int) smod 3600) sdiv 60 = 53" "(78800::int) smod 60 = 20"
    by (simp_all add: sdiv_nonneg smod_nonneg)
  then show ?thesis
    using day_time_splitter[of "- 40000" 32400 78800 "- 1" tm_zeroed 0] s
    by (simp add: in_int64_def)
qed

text \<open>
  C5, as the code has it. For every day count the splitter leaves for a 64-bit \<open>t\<close> and
  an offset of less than a day, the year resolver's loop terminates (\<open>year_loop\<close> is a
  total function), runs its body at most 5 times, and leaves \<open>0 \<le> days < 366\<close> for a
  leap year \<open>y\<close> and \<open>0 \<le> days < 365\<close> otherwise, where \<open>days\<close> is the day of the year
  of \<open>y\<close>: the days before year \<open>y\<close> plus \<open>days\<close> are the day count the loop started
  from. The bound is 5, not 2: a day of the year 3476 needs three runs, and five are
  reached.
\<close>

theorem year_resolver:
  assumes "in_int64 t" "- 86400 < offset" "offset < 86400"
    and "loop_pos (loop_neg (t smod SECS_PER_DAY + offset, t sdiv SECS_PER_DAY)) = (rem, days)"
    and "year_loop (1970, days) = (y, d)"
  shows "year_loop_iters (1970, days) \<le> 5
     \<and> 0 \<le> d \<and> d < (if isleap y then 366 else 365)
     \<and> days_before_year y + d = days"
proof -
  have days: "days = (t + offset) div 86400"
    using assms(4) unfolding split_eq by simp
  have it: "year_loop_iters (1970, days) \<le> 5"
    unfolding days by (rule year_loop_iters_le_5) (rule day_range[OF assms(1,2,3)])+
  from year_loop_exit[OF assms(5)]
  have "\<not> year_guard (y, d)" "d + days_before_year y = days"
    by (simp_all add: days_before_year_def)
  with it show ?thesis by (auto simp: year_guard_def split: if_splits)
qed

lemma year_loop_iters_5:
  "year_loop_iters (1970, - 104159800538919) = 5"
  by (simp add: year_loop_iters.simps year_guard_def year_body_floor isleap_dvd LEAPS_floor)

theorem year_resolver_witness:
  "in_int64 (- 8999406766562634000)
   \<and> loop_pos (loop_neg ((- 8999406766562634000) smod SECS_PER_DAY + 32400,
                          (- 8999406766562634000) sdiv SECS_PER_DAY))
       = (0, - 104159800538919)
   \<and> year_loop (1970, - 104159800538919) = (- 285179845773, 354)
   \<and> year_loop_iters (1970, - 104159800538919) = 5
   \<and> year_loop_iters (1970, - 104159800538919) \<le> 5
   \<and> \<not> isleap (- 285179845773)
   \<and> days_before_year (- 285179845773) + 354 = - 104159800538919"
proof -
  have s: "loop_pos (loop_neg ((- 8999406766562634000) smod SECS_PER_DAY + 32400,
                          (- 8999406766562634000) sdiv SECS_PER_DAY))
       = (0, - 104159800538919)"
    unfolding split_eq by simp
  have l: "year_loop (1970, - 104159800538919) = (- 285179845773, 354)"
    by (rule year_loop_eqI) (simp_all add: eval_simps)
  have n: "\<not> isleap (- 285179845773)" by (simp add: isleap_dvd)
  show ?thesis
    using year_resolver[of "- 8999406766562634000" 32400 0 "- 104159800538919" "- 285179845773" 354]
      s l n year_loop_iters_5
    by (simp add: in_int64_def)
qed

text \<open>
  The claim C5 as stated fails: \<open>t = 47524752000\<close> is a 64-bit value, the splitter
  leaves the day count 550055 for it under the fixed offset, and from that count the body
  of the loop runs 3 times.
\<close>

theorem year_resolver_counterexample:
  "in_int64 47524752000
   \<and> loop_pos (loop_neg (47524752000 smod SECS_PER_DAY + kst_offset, 47524752000 sdiv SECS_PER_DAY))
       = (32400, 550055)
   \<and> year_loop_iters (1970, 550055) = 3"
proof -
  have "year_loop_iters (1970, 550055) = 3"
    by (simp add: year_loop_iters.simps year_guard_def year_body_floor isleap_dvd LEAPS_floor)
  then show ?thesis
    unfolding split_eq by (simp add: in_int64_def kst_offset_def)
qed

text \<open>
  C9. For every zero-based day of the year \<open>d\<close> with \<open>0 \<le> d < 366\<close> and either leap
  classification, the backward scan from index 11 ends at an index \<open>m\<close> in 0..11 without
  reading outside the table (the model's scan is \<open>None\<close> on such a read; entry 0 of the
  table is \<open>0 \<le> d\<close>), and \<open>d - table[m] + 1\<close> is at least 1. Whenever the year resolver
  hands \<open>d\<close> to the scan for a year of that classification, \<open>d\<close> is below the length
  of the year, and \<open>__offtime64\<close> stores \<open>tm_mon = m\<close> and
  \<open>tm_mday = d - table[m] + 1\<close>; for every \<open>d\<close> below the length of the year that day
  of the month is in 1..31, and the casts leave both values as they are. (The pair of
  \<open>d = 365\<close> and the table of normal years is never handed to the scan.)
\<close>

theorem month_scan:
  assumes "0 \<le> d" "d < 366"
  shows "\<exists>m. mon_scan (mon_yday ! (if leap then 1 else 0)) d 11 = Some m
           \<and> 0 \<le> m \<and> m \<le> 11 \<and> cast_int m = m
           \<and> 1 \<le> d - mon_yday ! (if leap then 1 else 0) ! nat m + 1
           \<and> (d < (if leap then 366 else 365) \<longrightarrow>
                d - mon_yday ! (if leap then 1 else 0) ! nat m + 1 \<le> 31
                \<and> cast_int (d - mon_yday ! (if leap then 1 else 0) ! nat m + 1)
                    = d - mon_yday ! (if leap then 1 else 0) ! nat m + 1)
           \<and> (\<forall>t offset r errno y.
                 year_loop (1970, (t + offset) div 86400) = (y, d) \<and> isleap y = leap
                 \<and> INT_MIN + 1900 \<le> y \<and> y \<le> INT_MAX + 1900 \<longrightarrow>
                   d < (if leap then 366 else 365)
                   \<and> (\<exists>r'. offtime64 t offset (Some r) errno = Some (1, Some r', errno)
                         \<and> tm_mon r' = m
                         \<and> tm_mday r' = d - mon_yday ! (if leap then 1 else 0) ! nat m + 1))"
proof -
  define y0 :: int where "y0 = (if leap then 2000 else 1999)"
  have l0: "isleap y0 = leap" unfolding y0_def by (simp add: isleap_dvd)
  define ip where "ip = mon_yday ! (if leap then 1 else 0)"
  have row: "mon_yday_row y = ip" if "isleap y = leap" for y
    unfolding mon_yday_row_def ip_def that ..
  have "\<exists>m. mon_scan (mon_yday_row y0) d 11 = Some m \<and> 0 \<le> m \<and> m \<le> 11
      \<and> mon_yday_row y0 ! nat m \<le> d \<and> (m < 11 \<longrightarrow> d < mon_yday_row y0 ! nat (m + 1))"
    by (rule mon_scan_Some) (use assms(1) in \<open>simp_all add: mon_yday_row_ends\<close>)
  then obtain m where ms: "mon_scan ip d 11 = Some m" and m: "0 \<le> m" "m \<le> 11"
    and lo: "ip ! nat m \<le> d"
    unfolding row[OF l0] by blast
  have cm: "cast_int m = m"
    by (rule cast_int_id) (use m in \<open>simp_all add: INT_MIN_def INT_MAX_def\<close>)
  have day: "d - ip ! nat m + 1 \<le> 31 \<and> cast_int (d - ip ! nat m + 1) = d - ip ! nat m + 1"
    if "d < (if leap then 366 else 365)"
  proof -
    have "\<not> year_guard (y0, d)" using assms(1) that by (simp add: year_guard_def l0)
    from mon_scan_row[OF this] ms have b: "1 \<le> d - ip ! nat m + 1" "d - ip ! nat m + 1 \<le> 31"
      unfolding row[OF l0] by auto
    have "cast_int (d - ip ! nat m + 1) = d - ip ! nat m + 1"
      by (rule cast_int_id) (use b in \<open>simp_all add: INT_MIN_def INT_MAX_def\<close>)
    with b show ?thesis by simp
  qed
  have run: "d < (if leap then 366 else 365)
      \<and> (\<exists>r'. offtime64 t offset (Some r) errno = Some (1, Some r', errno)
            \<and> tm_mon r' = m \<and> tm_mday r' = d - ip ! nat m + 1)"
    if yl: "year_loop (1970, (t + offset) div 86400) = (y, d)" and l: "isleap y = leap"
      and y: "INT_MIN + 1900 \<le> y" "y \<le> INT_MAX + 1900"
    for t offset r errno y
  proof -
    from year_loop_exit[OF yl] have "\<not> year_guard (y, d)" by simp
    then have "d < (if leap then 366 else 365)"
      by (auto simp: year_guard_def l split: if_splits)
    moreover have "mon_scan (mon_yday_row y) d 11 = Some m" unfolding row[OF l] by (rule ms)
    from offtime64_eq[OF yl this, of r errno] y
    have "\<exists>r'. offtime64 t offset (Some r) errno = Some (1, Some r', errno)
            \<and> tm_mon r' = m \<and> tm_mday r' = d - ip ! nat m + 1"
      unfolding row[OF l] by simp
    ultimately show ?thesis by simp
  qed
  have lo': "1 \<le> d - ip ! nat m + 1" using lo by simp
  have B: "d < (if leap then 366 else 365) \<longrightarrow>
      d - ip ! nat m + 1 \<le> 31 \<and> cast_int (d - ip ! nat m + 1) = d - ip ! nat m + 1"
    using day by blast
  have A: "\<forall>t offset r errno y.
      year_loop (1970, (t + offset) div 86400) = (y, d) \<and> isleap y = leap
      \<and> INT_MIN + 1900 \<le> y \<and> y \<le> INT_MAX + 1900 \<longrightarrow>
        d < (if leap then 366 else 365)
        \<and> (\<exists>r'. offtime64 t offset (Some r) errno = Some (1, Some r', errno)
              \<and> tm_mon r' = m \<and> tm_mday r' = d - ip ! nat m + 1)"
    using run by blast
  show ?thesis
    unfolding ip_def [symmetric] using ms m cm lo' B A by blast
qed

theorem month_scan_witness:
  "mon_scan (mon_yday ! 1) 59 11 = Some 1
   \<and> year_loop (1970, (951761045 + 32400) div 86400) = (2000, 59) \<and> isleap 2000
   \<and> (\<exists>r'. offtime64 951761045 32400 (Some tm_zeroed) 0 = Some (1, Some r', 0)
         \<and> tm_mon r' = 1 \<and> tm_mday r' = 29)
   \<and> mon_scan (mon_yday ! 0) 364 11 = Some 11
   \<and> year_loop (1970, (946566000 + 32400) div 86400) = (1999, 364) \<and> \<not> isleap 1999
   \<and> (\<exists>r'. offtime64 946566000 32400 (Some tm_zeroed) 0 = Some (1, Some r', 0)
         \<and> tm_mon r' = 11 \<and> tm_mday r' = 31)"
proof -
  have s: "mon_scan (mon_yday ! 1) 59 11 = Some 1" "mon_scan (mon_yday ! 0) 364 11 = Some 11"
    by (simp_all add: mon_scan.simps mon_yday_def)
  have l: "isleap 2000" "\<not> isleap 1999" by (simp_all add: isleap_dvd)
  have y1: "year_loop (1970, (951761045 + 32400) div 86400) = (2000, 59)"
    by (rule year_loop_eqI) (simp_all add: eval_simps)
  have y2: "year_loop (1970, (946566000 + 32400) div 86400) = (1999, 364)"
    by (rule year_loop_eqI) (simp_all add: eval_simps)
  have r: "INT_MIN + 1900 \<le> 2000" "2000 \<le> INT_MAX + 1900"
    "INT_MIN + 1900 \<le> 1999" "1999 \<le> INT_MAX + 1900"
    by (simp_all add: INT_MIN_def INT_MAX_def)
  from month_scan[of 59 True] s(1) have
    "\<forall>t offset r errno y. year_loop (1970, (t + offset) div 86400) = (y, 59) \<and> isleap y = True
        \<and> INT_MIN + 1900 \<le> y \<and> y \<le> INT_MAX + 1900 \<longrightarrow>
        (\<exists>r'. offtime64 t offset (Some r) errno = Some (1, Some r', errno)
              \<and> tm_mon r' = 1 \<and> tm_mday r' = 59 - mon_yday ! 1 ! nat 1 + 1)"
    by auto
  from this[rule_format, of 951761045 32400 2000 tm_zeroed 0] y1 l(1) r(1,2)
  have a: "\<exists>r'. offtime64 951761045 32400 (Some tm_zeroed) 0 = Some (1, Some r', 0)
         \<and> tm_mon r' = 1 \<and> tm_mday r' = 29"
    by (simp add: mon_yday_def)
  from month_scan[of 364 False] s(2) have
    "\<forall>t offset r errno y. year_loop (1970, (t + offset) div 86400) = (y, 364) \<and> isleap y = False
        \<and> INT_MIN + 1900 \<le> y \<and> y \<le> INT_MAX + 1900 \<longrightarrow>
        (\<exists>r'. offtime64 t offset (Some r) errno = Some (1, Some r', errno)
              \<and> tm_mon r' = 11 \<and> tm_mday r' = 364 - mon_yday ! 0 ! nat 11 + 1)"
    by auto
  from this[rule_format, of 946566000 32400 1999 tm_zeroed 0] y2 l(2) r(3,4)
  have b: "\<exists>r'. offtime64 946566000 32400 (Some tm_zeroed) 0 = Some (1, Some r', 0)
         \<and> tm_mon r' = 11 \<and> tm_mday r' = 31"
    by (simp add: mon_yday_def)
  from s l y1 y2 a b show ?thesis by simp
qed

text \<open>
  C4. For every year \<open>Y\<close>, positive, zero or negative, \<open>DIV\<close> by 4, 100 and 400 is the
  floor quotient (the greatest \<open>k\<close> with \<open>4 * k \<le> Y\<close>, and so on; HOL's \<open>div\<close> is that
  quotient) and \<open>LEAPS_THRU_END_OF (Y)\<close> is
  \<open>floor (Y/4) - floor (Y/100) + floor (Y/400)\<close>; for \<open>Y \<ge> 1\<close> this is the number of
  leap years (divisible by 4 and (not divisible by 100 or divisible by 400)) from year 1
  through year \<open>Y\<close>.
\<close>

theorem leaps_thru_end_of:
  "4 * DIV Y 4 \<le> Y \<and> Y < 4 * DIV Y 4 + 4
   \<and> 100 * DIV Y 100 \<le> Y \<and> Y < 100 * DIV Y 100 + 100
   \<and> 400 * DIV Y 400 \<le> Y \<and> Y < 400 * DIV Y 400 + 400
   \<and> LEAPS_THRU_END_OF Y = Y div 4 - Y div 100 + Y div 400
   \<and> (1 \<le> Y \<longrightarrow> LEAPS_THRU_END_OF Y = int (length (filter gregorian_leap [1..Y])))"
proof -
  have cnt: "LEAPS_THRU_END_OF Y = int (length (filter gregorian_leap [1..Y]))" if "1 \<le> Y"
    using that
  proof (induction Y rule: int_ge_induct)
    case base
    show ?case by (simp add: LEAPS_floor gregorian_leap_def)
  next
    case (step i)
    have u: "[1..i + 1] = [1..i] @ [i + 1]" using step.hyps upto_rec2[of 1 "i + 1"] by simp
    have "LEAPS_THRU_END_OF (i + 1) = LEAPS_THRU_END_OF i + (if gregorian_leap (i + 1) then 1 else 0)"
      using leaps_step[of i] by (simp add: isleap_gregorian)
    then show ?case unfolding u step.IH by simp
  qed
  show ?thesis
    using div_sandwich[of 4 Y] div_sandwich[of 100 Y] div_sandwich[of 400 Y] cnt
    by (simp add: DIV_floor LEAPS_floor)
qed

theorem leaps_thru_end_of_witness:
  "LEAPS_THRU_END_OF 8 = 2 \<and> int (length (filter gregorian_leap [1..8])) = 2
   \<and> DIV (- 1) 4 = - 1 \<and> (- 1) sdiv 4 = (0::int) \<and> LEAPS_THRU_END_OF (- 1) = - 1
   \<and> LEAPS_THRU_END_OF 2024 = 491"
proof -
  have "length (filter gregorian_leap [1..8]) = 2"
    by (simp add: gregorian_leap_def upto_rec1)
  moreover have "DIV (- 1) 4 = - 1"
    using leaps_thru_end_of[of "- 1"] by linarith
  moreover have "(- 1) sdiv 4 = (0::int)" by (simp add: signed_divide_int_def)
  ultimately show ?thesis
    using leaps_thru_end_of[of 8] leaps_thru_end_of[of "- 1"] leaps_thru_end_of[of 2024]
    by simp
qed

text \<open>Runs on concrete inputs that the witnesses below share.\<close>

lemma run_2038:
  "fastkst_localtime 2147483647 (Some tm_zeroed) 0 =
     Some (1, Some \<lparr>tm_sec = 7, tm_min = 14, tm_hour = 12, tm_mday = 19, tm_mon = 0,
                    tm_year = 138, tm_wday = 2, tm_yday = 18, tm_isdst = 0, tm_gmtoff = 32400,
                    tm_zone = Some ''KST''\<rparr>, 0)"
  using fastkst_localtime_success[of 2038 18 2147483647 0 tm_zeroed 0]
  by (simp add: eval_simps tm_zeroed_def)

lemma run_overflow:
  "fastkst_localtime 4611686018427387904 (Some r) errno =
     Some (0, Some (r\<lparr>tm_hour := 16, tm_min := 45, tm_sec := 4, tm_wday := 2\<rparr>), EOVERFLOW)"
  using fastkst_localtime_overflow[of 146138514283 169 4611686018427387904 r errno]
  by (simp add: eval_simps)

text \<open>
  C10. For every 64-bit \<open>t\<close> on which \<open>fastkst_localtime\<close> with a record returns 0, the
  failure is the overflow (\<open>errno = EOVERFLOW\<close>), and the record it leaves is the
  caller's record with \<open>tm_hour\<close>, \<open>tm_min\<close>, \<open>tm_sec\<close> and \<open>tm_wday\<close> overwritten by the
  time of day and the weekday of \<open>t + 32400\<close>; \<open>tm_year\<close>, \<open>tm_yday\<close>, \<open>tm_mon\<close>,
  \<open>tm_mday\<close>, \<open>tm_gmtoff\<close>, \<open>tm_zone\<close> and \<open>tm_isdst\<close> hold what they held before the
  call.
\<close>

theorem overflow_leaves_partial_record:
  assumes "in_int64 t"
    and "fastkst_localtime t (Some r) errno = Some (0, tp', errno')"
  shows "errno' = EOVERFLOW
     \<and> tp' = Some (r\<lparr>tm_hour := (t + 32400) mod 86400 div 3600,
                      tm_min := (t + 32400) mod 86400 mod 3600 div 60,
                      tm_sec := (t + 32400) mod 86400 mod 60,
                      tm_wday := (4 + (t + 32400) div 86400) mod 7\<rparr>)"
proof -
  obtain y d m where yl: "year_loop (1970, (t + 32400) div 86400) = (y, d)"
    and ms: "mon_scan (mon_yday_row y) d 11 = Some m"
    using year_loop_total by blast
  show ?thesis
    using assms(2) unfolding fastkst_localtime_eq[OF yl ms] by (simp split: if_splits)
qed

theorem overflow_leaves_partial_record_witness:
  "in_int64 4611686018427387904
   \<and> fastkst_localtime 4611686018427387904 (Some tm_zeroed) 0 =
       Some (0, Some (tm_zeroed\<lparr>tm_hour := 16, tm_min := 45, tm_sec := 4, tm_wday := 2\<rparr>), EOVERFLOW)
   \<and> tm_zeroed\<lparr>tm_hour := 16, tm_min := 45, tm_sec := 4, tm_wday := 2\<rparr>
       = tm_zeroed\<lparr>tm_hour := (4611686018427387904 + 32400) mod 86400 div 3600,
                  tm_min := (4611686018427387904 + 32400) mod 86400 mod 3600 div 60,
                  tm_sec := (4611686018427387904 + 32400) mod 86400 mod 60,
                  tm_wday := (4 + (4611686018427387904 + 32400) div 86400) mod 7\<rparr>"
  using overflow_leaves_partial_record[OF _ run_overflow[of tm_zeroed 0]]
  by (simp add: in_int64_def run_overflow)

text \<open>
  C3. Let \<open>y\<close> be the year of the day of \<open>t + 32400\<close> in the calendar of the
  specification: the day lies from the first day of \<open>y\<close> up to, not including, the first
  day of \<open>y + 1\<close>. For every 64-bit \<open>t\<close> and every record, \<open>fastkst_localtime\<close> returns 0
  with \<open>errno = EOVERFLOW\<close> iff \<open>y\<close> is outside \<open>[INT_MIN + 1900, INT_MAX + 1900]\<close>, and
  for \<open>y\<close> inside that range it returns 1 and stores \<open>tm_year = y - 1900\<close>.
\<close>

theorem year_overflow_guard:
  assumes "in_int64 t"
    and "days_before_year y \<le> (t + 32400) div 86400"
    and "(t + 32400) div 86400 < days_before_year (y + 1)"
  shows "((\<exists>tp'. fastkst_localtime t (Some r) errno = Some (0, tp', EOVERFLOW))
            \<longleftrightarrow> y < INT_MIN + 1900 \<or> INT_MAX + 1900 < y)
     \<and> (INT_MIN + 1900 \<le> y \<and> y \<le> INT_MAX + 1900 \<longrightarrow>
          (\<exists>r'. fastkst_localtime t (Some r) errno = Some (1, Some r', errno)
                \<and> tm_year r' = y - 1900))"
proof -
  define d where "d = (t + 32400) div 86400 - days_before_year y"
  have d: "0 \<le> d" "d < days_in_year y"
    using assms(2,3) unfolding d_def days_before_year_step by simp_all
  have ng: "\<not> year_guard (y, d)"
    using d by (auto simp: year_guard_def days_in_year_def isleap_gregorian split: if_splits)
  have yl: "year_loop (1970, (t + 32400) div 86400) = (y, d)"
    by (rule year_loop_eqI[OF ng]) (simp add: d_def days_before_year_def)
  from mon_scan_row[OF ng] obtain m where ms: "mon_scan (mon_yday_row y) d 11 = Some m"
    by blast
  show ?thesis unfolding fastkst_localtime_eq[OF yl ms] by auto
qed

theorem year_overflow_guard_witness:
  "in_int64 2147483647
   \<and> days_before_year 2038 \<le> (2147483647 + 32400) div 86400
   \<and> (2147483647 + 32400) div 86400 < days_before_year (2038 + 1)
   \<and> (\<exists>r'. fastkst_localtime 2147483647 (Some tm_zeroed) 0 = Some (1, Some r', 0)
            \<and> tm_year r' = 2038 - 1900)
   \<and> in_int64 4611686018427387904
   \<and> days_before_year 146138514283 \<le> (4611686018427387904 + 32400) div 86400
   \<and> (4611686018427387904 + 32400) div 86400 < days_before_year (146138514283 + 1)
   \<and> INT_MAX + 1900 < 146138514283
   \<and> (\<exists>tp'. fastkst_localtime 4611686018427387904 (Some tm_zeroed) 0 = Some (0, tp', EOVERFLOW))"
proof -
  have h1: "in_int64 2147483647" "days_before_year 2038 \<le> (2147483647 + 32400) div 86400"
    "(2147483647 + 32400) div 86400 < days_before_year (2038 + 1)"
    by (simp_all add: in_int64_def days_before_year_closed LEAPS_floor)
  have h2: "in_int64 4611686018427387904"
    "days_before_year 146138514283 \<le> (4611686018427387904 + 32400) div 86400"
    "(4611686018427387904 + 32400) div 86400 < days_before_year (146138514283 + 1)"
    by (simp_all add: in_int64_def days_before_year_closed LEAPS_floor)
  have o: "INT_MAX + 1900 < 146138514283" by (simp add: INT_MAX_def)
  from year_overflow_guard[OF h1, of tm_zeroed 0] year_overflow_guard[OF h2, of tm_zeroed 0] h1 h2 o
  show ?thesis by (simp add: INT_MIN_def INT_MAX_def)
qed

text \<open>
  Two runs for the witness of the round trip: 1968-03-01 21:53:20, which enters the first
  loop of the splitter, and 2000-02-29 03:04:05, which enters the second.
\<close>

lemma run_1968:
  "fastkst_localtime (- 57928000) (Some tm_zeroed) 0 =
     Some (1, Some \<lparr>tm_sec = 20, tm_min = 53, tm_hour = 21, tm_mday = 1, tm_mon = 2,
                    tm_year = 68, tm_wday = 5, tm_yday = 60, tm_isdst = 0, tm_gmtoff = 32400,
                    tm_zone = Some ''KST''\<rparr>, 0)"
  using fastkst_localtime_success[of 1968 60 "- 57928000" 2 tm_zeroed 0]
  by (simp add: eval_simps tm_zeroed_def)

lemma run_2000:
  "fastkst_localtime 951761045 (Some tm_zeroed) 0 =
     Some (1, Some \<lparr>tm_sec = 5, tm_min = 4, tm_hour = 3, tm_mday = 29, tm_mon = 1,
                    tm_year = 100, tm_wday = 2, tm_yday = 59, tm_isdst = 0, tm_gmtoff = 32400,
                    tm_zone = Some ''KST''\<rparr>, 0)"
  using fastkst_localtime_success[of 2000 59 951761045 1 tm_zeroed 0]
  by (simp add: eval_simps tm_zeroed_def)

text \<open>
  C1. For every 64-bit \<open>t\<close> on which \<open>fastkst_localtime\<close> succeeds, the record it
  produces holds a civil time of the proleptic Gregorian calendar (month in 0..11, day of
  the month from 1 to the length of that month in that year, time of day from 00:00:00
  to 23:59:59), and the epoch-seconds of that record, recombined in the calendar of the
  specification with the fixed offset 32400, are \<open>t\<close>. No other civil time recombines to
  \<open>t\<close>: every record that holds a civil time and recombines to \<open>t\<close> has the year, month,
  day, hour, minute and second of the produced record.
\<close>

theorem round_trip:
  assumes "in_int64 t"
    and "fastkst_localtime t (Some r) errno = Some (1, Some r', errno')"
  shows "valid_civil r' \<and> epoch_seconds r' 32400 = t
     \<and> (\<forall>c. valid_civil c \<and> epoch_seconds c 32400 = t \<longrightarrow>
           tm_year c = tm_year r' \<and> tm_mon c = tm_mon r' \<and> tm_mday c = tm_mday r'
           \<and> tm_hour c = tm_hour r' \<and> tm_min c = tm_min r' \<and> tm_sec c = tm_sec r')"
proof -
  define R where "R = (t + 32400) mod 86400"
  define D where "D = (t + 32400) div 86400"
  have R: "0 \<le> R" "R < 86400" unfolding R_def by simp_all
  obtain y d m where yl: "year_loop (1970, D) = (y, d)"
    and ms: "mon_scan (mon_yday_row y) d 11 = Some m"
    using year_loop_total by blast
  from year_loop_exit[OF yl] have ng: "\<not> year_guard (y, d)" and day: "d + days_before_year y = D"
    by (simp_all add: days_before_year_def)
  from mon_scan_row[OF ng] ms have m: "0 \<le> m" "m \<le> 11"
    and lo: "1 \<le> d - mon_yday_row y ! nat m + 1"
    and up: "d < mon_yday_row y ! nat (m + 1)"
    by auto
  have r': "r' = r\<lparr>tm_hour := R div 3600, tm_min := R mod 3600 div 60, tm_sec := R mod 60,
                     tm_wday := (4 + D) mod 7, tm_year := y - 1900, tm_yday := d, tm_mon := m,
                     tm_mday := d - mon_yday_row y ! nat m + 1, tm_gmtoff := 32400,
                     tm_zone := Some ''KST'', tm_isdst := 0\<rparr>"
    using assms(2) unfolding fastkst_localtime_eq[OF yl [unfolded D_def] ms] R_def D_def
    by (simp split: if_splits)
  have months: "mon_yday_row y ! nat m = sum_list (map (days_in_month (gregorian_leap y)) [0..<nat m])"
    by (rule mon_yday_row_months) (use m in simp_all)
  have civil: "days_from_civil y m (d - mon_yday_row y ! nat m + 1) = D"
    unfolding days_from_civil_def months [symmetric] using day by simp
  have tod: "R div 3600 * 3600 + R mod 3600 div 60 * 60 + R mod 60 = R"
    by (rule time_of_day_sum)
  have "D * 86400 + R = t + 32400" unfolding D_def R_def by simp
  then have rt: "epoch_seconds r' 32400 = t"
    unfolding epoch_seconds_def r' using civil tod by simp
  have mday: "d - mon_yday_row y ! nat m + 1 \<le> days_in_month (gregorian_leap y) (nat m)"
    using up unfolding mon_yday_row_next[OF m] by simp
  have s: "0 \<le> R mod 60" "R mod 60 \<le> 59"
    using pos_mod_sign[of 60 R] pos_mod_bound[of 60 R] by simp_all
  have h: "0 \<le> R div 3600" "R div 3600 \<le> 23" using hour_field(2,3)[OF R] by simp_all
  have mi: "0 \<le> R mod 3600 div 60" "R mod 3600 div 60 \<le> 59"
    using min_field(2,3)[OF R(1)] by simp_all
  have f: "tm_mon r' = m" "tm_mday r' = d - mon_yday_row y ! nat m + 1" "tm_year r' + 1900 = y"
    "tm_hour r' = R div 3600" "tm_min r' = R mod 3600 div 60" "tm_sec r' = R mod 60"
    unfolding r' by simp_all
  have v: "valid_civil r'"
    unfolding valid_civil_def f using m lo mday h mi s by (intro conjI)
  have u: "tm_year c = tm_year r' \<and> tm_mon c = tm_mon r' \<and> tm_mday c = tm_mday r'
           \<and> tm_hour c = tm_hour r' \<and> tm_min c = tm_min r' \<and> tm_sec c = tm_sec r'"
    if "valid_civil c \<and> epoch_seconds c 32400 = t" for c
    by (rule civil_time_unique[of c r' 32400]) (use that v rt in simp_all)
  from v rt u show ?thesis by blast
qed

theorem round_trip_witness:
  "in_int64 (- 57928000)
   \<and> (- 57928000) smod SECS_PER_DAY + kst_offset < 0
   \<and> fastkst_localtime (- 57928000) (Some tm_zeroed) 0 =
     Some (1, Some \<lparr>tm_sec = 20, tm_min = 53, tm_hour = 21, tm_mday = 1, tm_mon = 2,
                    tm_year = 68, tm_wday = 5, tm_yday = 60, tm_isdst = 0, tm_gmtoff = 32400,
                    tm_zone = Some ''KST''\<rparr>, 0)
   \<and> valid_civil \<lparr>tm_sec = 20, tm_min = 53, tm_hour = 21, tm_mday = 1, tm_mon = 2,
                    tm_year = 68, tm_wday = 5, tm_yday = 60, tm_isdst = 0, tm_gmtoff = 32400,
                    tm_zone = Some ''KST''\<rparr>
   \<and> epoch_seconds \<lparr>tm_sec = 20, tm_min = 53, tm_hour = 21, tm_mday = 1, tm_mon = 2,
                    tm_year = 68, tm_wday = 5, tm_yday = 60, tm_isdst = 0, tm_gmtoff = 32400,
                    tm_zone = Some ''KST''\<rparr> 32400 = - 57928000
   \<and> in_int64 951761045
   \<and> SECS_PER_DAY \<le> 951761045 smod SECS_PER_DAY + kst_offset
   \<and> fastkst_localtime 951761045 (Some tm_zeroed) 0 =
     Some (1, Some \<lparr>tm_sec = 5, tm_min = 4, tm_hour = 3, tm_mday = 29, tm_mon = 1,
                    tm_year = 100, tm_wday = 2, tm_yday = 59, tm_isdst = 0, tm_gmtoff = 32400,
                    tm_zone = Some ''KST''\<rparr>, 0)
   \<and> valid_civil \<lparr>tm_sec = 5, tm_min = 4, tm_hour = 3, tm_mday = 29, tm_mon = 1,
                    tm_year = 100, tm_wday = 2, tm_yday = 59, tm_isdst = 0, tm_gmtoff = 32400,
                    tm_zone = Some ''KST''\<rparr>
   \<and> epoch_seconds \<lparr>tm_sec = 5, tm_min = 4, tm_hour = 3, tm_mday = 29, tm_mon = 1,
                    tm_year = 100, tm_wday = 2, tm_yday = 59, tm_isdst = 0, tm_gmtoff = 32400,
                    tm_zone = Some ''KST''\<rparr> 32400 = 951761045"
proof -
  have i: "in_int64 (- 57928000)" "in_int64 951761045" by (simp_all add: in_int64_def)
  have e: "(- 57928000) smod SECS_PER_DAY + kst_offset < 0"
    "SECS_PER_DAY \<le> 951761045 smod SECS_PER_DAY + kst_offset"
    by (simp_all add: SPD kst_offset_def smod_pos)
  note a = round_trip[OF i(1) run_1968]
  note b = round_trip[OF i(2) run_2000]
  from a[THEN conjunct1] a[THEN conjunct2, THEN conjunct1]
    b[THEN conjunct1] b[THEN conjunct2, THEN conjunct1] i e run_1968 run_2000
  show ?thesis by (intro conjI)
qed

end
